theory Spec2Isabelle
  imports Main "HOL-Library.Sublist" "HOL-Library.Char_ord"
begin

section \<open>Strings and regular-expression matching\<close>

text \<open>
  The archival bot (\<^verbatim>\<open>bot.js\<close>) decides whether a chat message is worth storing with two
  regular expressions. A JavaScript string is modelled as a \<^typ>\<open>string\<close>, one \<^typ>\<open>char\<close>
  per code unit (code units below 256; the two line separators U+2028 and U+2029, which the
  wildcard \<^verbatim>\<open>.\<close> also refuses, lie outside this range).

  The regular expressions are modelled as backtracking matchers in continuation-passing
  style, one combinator per regex operator, so that the order in which a JavaScript engine
  tries the alternatives is the order of the \<open>case\<close> branches below. A matcher takes the
  text that is left and returns \<open>None\<close> when no alternative leads to a match.
\<close>

definition nl :: char where
  "nl = CHR 0x0A"

definition cr :: char where
  "cr = CHR 0x0D"

definition tab :: char where
  "tab = CHR 0x09"

definition isNl :: "char \<Rightarrow> bool" where
  \<comment> \<open>the atom \<^verbatim>\<open>\n\<close>\<close>
  "isNl c = (c = nl)"

definition anyChar :: "char \<Rightarrow> bool" where
  \<comment> \<open>the class \<^verbatim>\<open>[\s\S]\<close>\<close>
  "anyChar c = True"

definition lower :: "char \<Rightarrow> bool" where
  \<comment> \<open>the class \<^verbatim>\<open>[a-z]\<close>\<close>
  "lower c = (CHR ''a'' \<le> c \<and> c \<le> CHR ''z'')"

definition upper :: "char \<Rightarrow> bool" where
  "upper c = (CHR ''A'' \<le> c \<and> c \<le> CHR ''Z'')"

definition digit :: "char \<Rightarrow> bool" where
  "digit c = (CHR ''0'' \<le> c \<and> c \<le> CHR ''9'')"

definition dot :: "char \<Rightarrow> bool" where
  \<comment> \<open>the wildcard \<^verbatim>\<open>.\<close>: every code unit but a line terminator\<close>
  "dot c = (c \<noteq> nl \<and> c \<noteq> cr)"

definition pathChar :: "char \<Rightarrow> bool" where
  \<comment> \<open>the class \<^verbatim>\<open>[A-Za-z0-9\-\._~:\/\?#\[\]@!$&'()*+,;=]\<close>\<close>
  "pathChar c = (upper c \<or> lower c \<or> digit c \<or> c \<in> set ''-._~:/?#[]@!$&'()*+,;='')"

definition fence :: string where
  \<comment> \<open>three backticks\<close>
  "fence = [CHR 0x60, CHR 0x60, CHR 0x60]"

definition orElse :: "'a option \<Rightarrow> 'a option \<Rightarrow> 'a option" where
  \<comment> \<open>ordered choice: the second alternative is tried when the first one fails\<close>
  "orElse a b = (case a of Some r \<Rightarrow> Some r | None \<Rightarrow> b)"

definition lit :: "string \<Rightarrow> (string \<Rightarrow> 'a option) \<Rightarrow> string \<Rightarrow> 'a option" where
  \<comment> \<open>a literal, then the rest of the pattern\<close>
  "lit w k s = (if prefix w s then k (drop (length w) s) else None)"

fun greedy :: "(char \<Rightarrow> bool) \<Rightarrow> (string \<Rightarrow> string \<Rightarrow> 'a option) \<Rightarrow> string \<Rightarrow> string \<Rightarrow> 'a option" where
  \<comment> \<open>\<^verbatim>\<open>[P]*\<close>: the longest run first, giving characters back one at a time; the
      continuation receives the text the star consumed (after \<open>acc\<close>) and the text left\<close>
  "greedy P k acc [] = k acc []"
| "greedy P k acc (c # cs) =
     (if P c then orElse (greedy P k (acc @ [c]) cs) (k acc (c # cs)) else k acc (c # cs))"

fun lazy :: "(char \<Rightarrow> bool) \<Rightarrow> (string \<Rightarrow> string \<Rightarrow> 'a option) \<Rightarrow> string \<Rightarrow> string \<Rightarrow> 'a option" where
  \<comment> \<open>\<^verbatim>\<open>[P]*?\<close>: the shortest run first, taking one more character on failure\<close>
  "lazy P k acc [] = k acc []"
| "lazy P k acc (c # cs) =
     orElse (k acc (c # cs)) (if P c then lazy P k (acc @ [c]) cs else None)"

definition greedy1 :: "(char \<Rightarrow> bool) \<Rightarrow> (string \<Rightarrow> string \<Rightarrow> 'a option) \<Rightarrow> string \<Rightarrow> 'a option" where
  \<comment> \<open>\<^verbatim>\<open>[P]+\<close>\<close>
  "greedy1 P k s = (case s of [] \<Rightarrow> None | c # cs \<Rightarrow> if P c then greedy P k [c] cs else None)"

definition lazy1 :: "(char \<Rightarrow> bool) \<Rightarrow> (string \<Rightarrow> string \<Rightarrow> 'a option) \<Rightarrow> string \<Rightarrow> 'a option" where
  \<comment> \<open>\<^verbatim>\<open>[P]+?\<close>\<close>
  "lazy1 P k s = (case s of [] \<Rightarrow> None | c # cs \<Rightarrow> if P c then lazy P k [c] cs else None)"

subsection \<open>Code blocks\<close>

text \<open>
  \<^verbatim>\<open>/\`\`\`(([a-z]+)\n)?\n*([\s\S]*?)\n*\`\`\`/g\<close>, tried at the head of the text. The result
  is capture 2 (the language, absent when the optional group did not take part), capture 3
  (the code) and the text after the match.
\<close>

type_synonym block = "string option \<times> string"

definition codeTail :: "string option \<Rightarrow> string \<Rightarrow> (block \<times> string) option" where
  \<comment> \<open>\<^verbatim>\<open>\n*([\s\S]*?)\n*\`\`\`\<close>\<close>
  "codeTail lang s =
     greedy isNl (\<lambda>_ s1.
       lazy anyChar (\<lambda>code s2.
         greedy isNl (\<lambda>_ s3.
           lit fence (\<lambda>s4. Some ((lang, code), s4)) s3) [] s2) [] s1) [] s"

definition codeMatch :: "string \<Rightarrow> (block \<times> string) option" where
  "codeMatch s =
     lit fence (\<lambda>s1.
       orElse (greedy1 lower (\<lambda>l s2. lit [nl] (codeTail (Some l)) s2) s1)
              (codeTail None s1)) s"


text \<open>
  What a combinator returns, the continuation returned on a split of the text. These facts
  give the termination of the global scans below: a match leaves less text than it was given.
\<close>

lemma orElse_SomeD: "orElse a b = Some y \<Longrightarrow> a = Some y \<or> (a = None \<and> b = Some y)"
  by (cases a) (simp_all add: orElse_def)

lemma lit_SomeD: "lit w k s = Some y \<Longrightarrow> \<exists>b. s = w @ b \<and> k b = Some y"
  by (auto simp: lit_def prefix_def split: if_splits)

lemma greedy_SomeD:
  "greedy P k acc s = Some y \<Longrightarrow> \<exists>a b. s = a @ b \<and> (\<forall>c\<in>set a. P c) \<and> k (acc @ a) b = Some y"
proof (induction s arbitrary: acc)
  case Nil
  then show ?case by simp
next
  case (Cons c cs)
  show ?case
  proof (cases "P c \<and> greedy P k (acc @ [c]) cs = Some y")
    case True
    then have pc: "P c" and g: "greedy P k (acc @ [c]) cs = Some y"
      by simp_all
    from Cons.IH [OF g]
    obtain a b where "cs = a @ b" "\<forall>x\<in>set a. P x" "k ((acc @ [c]) @ a) b = Some y"
      by blast
    then have "c # cs = (c # a) @ b \<and> (\<forall>x\<in>set (c # a). P x) \<and> k (acc @ (c # a)) b = Some y"
      using pc by simp
    then show ?thesis by blast
  next
    case False
    have "k acc (c # cs) = Some y"
    proof (cases "P c")
      case True
      then have "orElse (greedy P k (acc @ [c]) cs) (k acc (c # cs)) = Some y"
        using Cons.prems by simp
      from orElse_SomeD [OF this] True False show ?thesis
        by simp
    next
      case False
      then show ?thesis using Cons.prems by simp
    qed
    then have "c # cs = [] @ (c # cs) \<and> (\<forall>x\<in>set []. P x) \<and> k (acc @ []) (c # cs) = Some y"
      by simp
    then show ?thesis by blast
  qed
qed

lemma lazy_SomeD:
  "lazy P k acc s = Some y \<Longrightarrow> \<exists>a b. s = a @ b \<and> (\<forall>c\<in>set a. P c) \<and> k (acc @ a) b = Some y"
proof (induction s arbitrary: acc)
  case Nil
  then show ?case by simp
next
  case (Cons c cs)
  show ?case
  proof (cases "k acc (c # cs) = Some y")
    case True
    then have "c # cs = [] @ (c # cs) \<and> (\<forall>x\<in>set []. P x) \<and> k (acc @ []) (c # cs) = Some y"
      by simp
    then show ?thesis by blast
  next
    case False
    have "orElse (k acc (c # cs)) (if P c then lazy P k (acc @ [c]) cs else None) = Some y"
      using Cons.prems by simp
    from orElse_SomeD [OF this] False
    have "(if P c then lazy P k (acc @ [c]) cs else None) = Some y"
      by simp
    then have pc: "P c" and l: "lazy P k (acc @ [c]) cs = Some y"
      by (simp_all split: if_splits)
    from Cons.IH [OF l] pc
    obtain a b where "cs = a @ b" "\<forall>x\<in>set a. P x" "k ((acc @ [c]) @ a) b = Some y" "P c"
      by blast
    then have "c # cs = (c # a) @ b \<and> (\<forall>x\<in>set (c # a). P x) \<and> k (acc @ (c # a)) b = Some y"
      by simp
    then show ?thesis by blast
  qed
qed

lemma greedy1_SomeD:
  "greedy1 P k s = Some y \<Longrightarrow>
     \<exists>a b. a \<noteq> [] \<and> s = a @ b \<and> (\<forall>c\<in>set a. P c) \<and> k a b = Some y"
proof -
  assume h: "greedy1 P k s = Some y"
  then obtain c cs where s: "s = c # cs" "P c" "greedy P k [c] cs = Some y"
    by (auto simp: greedy1_def split: list.splits if_splits)
  from greedy_SomeD [OF s(3)]
  obtain a b where "cs = a @ b" "\<forall>x\<in>set a. P x" "k ([c] @ a) b = Some y"
    by blast
  then have "c # a \<noteq> [] \<and> s = (c # a) @ b \<and> (\<forall>x\<in>set (c # a). P x) \<and> k (c # a) b = Some y"
    using s by simp
  then show ?thesis by blast
qed

lemma lazy1_SomeD:
  "lazy1 P k s = Some y \<Longrightarrow>
     \<exists>a b. a \<noteq> [] \<and> s = a @ b \<and> (\<forall>c\<in>set a. P c) \<and> k a b = Some y"
proof -
  assume h: "lazy1 P k s = Some y"
  then obtain c cs where s: "s = c # cs" "P c" "lazy P k [c] cs = Some y"
    by (auto simp: lazy1_def split: list.splits if_splits)
  from lazy_SomeD [OF s(3)]
  obtain a b where "cs = a @ b" "\<forall>x\<in>set a. P x" "k ([c] @ a) b = Some y"
    by blast
  then have "c # a \<noteq> [] \<and> s = (c # a) @ b \<and> (\<forall>x\<in>set (c # a). P x) \<and> k (c # a) b = Some y"
    using s by simp
  then show ?thesis by blast
qed

lemma codeTail_SomeD:
  assumes "codeTail lang s = Some ((l, code), rest)"
  shows "l = lang \<and> (\<exists>n1 n2. s = n1 @ code @ n2 @ fence @ rest \<and>
        (\<forall>c\<in>set n1. c = nl) \<and> (\<forall>c\<in>set n2. c = nl))"
proof -
  from greedy_SomeD [OF assms [unfolded codeTail_def]]
  obtain n1 s1 where 1: "s = n1 @ s1" "\<forall>c\<in>set n1. isNl c"
    and a: "lazy anyChar (\<lambda>code s2. greedy isNl (\<lambda>_ s3.
           lit fence (\<lambda>s4. Some ((lang, code), s4)) s3) [] s2) [] s1 = Some ((l, code), rest)"
    by blast
  from lazy_SomeD [OF a]
  obtain b s2 where 2: "s1 = b @ s2"
    and b: "greedy isNl (\<lambda>_ s3. lit fence (\<lambda>s4. Some ((lang, [] @ b), s4)) s3) [] s2 = Some ((l, code), rest)"
    by blast
  from greedy_SomeD [OF b]
  obtain n2 s3 where 3: "s2 = n2 @ s3" "\<forall>c\<in>set n2. isNl c"
    and c: "lit fence (\<lambda>s4. Some ((lang, [] @ b), s4)) s3 = Some ((l, code), rest)"
    by blast
  from lit_SomeD [OF c] have "s3 = fence @ rest" "l = lang" "b = code"
    by auto
  with 1 2 3 have "l = lang \<and> s = n1 @ code @ n2 @ fence @ rest \<and>
        (\<forall>c\<in>set n1. c = nl) \<and> (\<forall>c\<in>set n2. c = nl)"
    by (simp add: isNl_def)
  then show ?thesis by blast
qed

lemma codeMatch_SomeD:
  assumes "codeMatch s = Some ((lang, code), rest)"
  shows "\<exists>tag n1 n2. s = fence @ tag @ n1 @ code @ n2 @ fence @ rest \<and>
        (\<forall>c\<in>set n1. c = nl) \<and> (\<forall>c\<in>set n2. c = nl) \<and>
        (case lang of None \<Rightarrow> tag = [] | Some l \<Rightarrow> l \<noteq> [] \<and> (\<forall>c\<in>set l. lower c) \<and> tag = l @ [nl])"
proof -
  from lit_SomeD [OF assms [unfolded codeMatch_def]]
  obtain s1 where s: "s = fence @ s1"
    and alt: "orElse (greedy1 lower (\<lambda>l s2. lit [nl] (codeTail (Some l)) s2) s1) (codeTail None s1)
               = Some ((lang, code), rest)"
    by blast
  from orElse_SomeD [OF alt] show ?thesis
  proof
    assume g: "greedy1 lower (\<lambda>l s2. lit [nl] (codeTail (Some l)) s2) s1 = Some ((lang, code), rest)"
    from greedy1_SomeD [OF g]
    obtain l s2 where l: "l \<noteq> []" "s1 = l @ s2" "\<forall>c\<in>set l. lower c"
      and n: "lit [nl] (codeTail (Some l)) s2 = Some ((lang, code), rest)"
      by blast
    from lit_SomeD [OF n]
    obtain s3 where s3: "s2 = [nl] @ s3" "codeTail (Some l) s3 = Some ((lang, code), rest)"
      by blast
    from codeTail_SomeD [OF s3(2)] obtain n1 n2 where
      "lang = Some l" "s3 = n1 @ code @ n2 @ fence @ rest" "\<forall>c\<in>set n1. c = nl" "\<forall>c\<in>set n2. c = nl"
      by blast
    with s l s3(1) have "s = fence @ (l @ [nl]) @ n1 @ code @ n2 @ fence @ rest \<and>
        (\<forall>c\<in>set n1. c = nl) \<and> (\<forall>c\<in>set n2. c = nl) \<and>
        (case lang of None \<Rightarrow> l @ [nl] = [] | Some l' \<Rightarrow> l' \<noteq> [] \<and> (\<forall>c\<in>set l'. lower c) \<and> l @ [nl] = l' @ [nl])"
      by simp
    then show ?thesis by blast
  next
    assume "greedy1 lower (\<lambda>l s2. lit [nl] (codeTail (Some l)) s2) s1 = None \<and>
            codeTail None s1 = Some ((lang, code), rest)"
    then have t: "codeTail None s1 = Some ((lang, code), rest)" by simp
    from codeTail_SomeD [OF t] obtain n1 n2 where
      "lang = None" "s1 = n1 @ code @ n2 @ fence @ rest" "\<forall>c\<in>set n1. c = nl" "\<forall>c\<in>set n2. c = nl"
      by blast
    with s have "s = fence @ [] @ n1 @ code @ n2 @ fence @ rest \<and>
        (\<forall>c\<in>set n1. c = nl) \<and> (\<forall>c\<in>set n2. c = nl) \<and>
        (case lang of None \<Rightarrow> ([]::string) = [] | Some l \<Rightarrow> l \<noteq> [] \<and> (\<forall>c\<in>set l. lower c) \<and> [] = l @ [nl])"
      by simp
    then show ?thesis by blast
  qed
qed

lemma codeMatch_shorter:
  assumes "codeMatch s = Some (b, rest)"
  shows "length rest < length s"
proof -
  obtain lang code where "b = (lang, code)" by (cases b)
  with assms codeMatch_SomeD [of s lang code rest]
  obtain tag n1 n2 where "s = fence @ tag @ n1 @ code @ n2 @ fence @ rest" by blast
  then show ?thesis by (simp add: fence_def)
qed

text \<open>
  \<^verbatim>\<open>getCodeBlocks\<close>: the loop \<^verbatim>\<open>while((matches = regex.exec(string)) !== null)\<close> on a
  fresh global regex. Each \<^verbatim>\<open>exec\<close> tries the start positions from \<^verbatim>\<open>lastIndex\<close> on, left
  to right, and leaves \<^verbatim>\<open>lastIndex\<close> at the end of the match.
\<close>

function getCodeBlocks :: "string \<Rightarrow> block list" where
  "getCodeBlocks s =
     (case codeMatch s of
        Some (b, rest) \<Rightarrow> b # getCodeBlocks rest
      | None \<Rightarrow> (case s of [] \<Rightarrow> [] | c # cs \<Rightarrow> getCodeBlocks cs))"
  by pat_completeness auto
termination
proof (relation "measure length")
  fix s :: string and x2 :: "block \<times> string" and x y
  assume "codeMatch s = Some x2" "(x, y) = x2"
  then show "(y, s) \<in> measure length"
    using codeMatch_shorter [of s x y] by simp
qed simp_all

declare getCodeBlocks.simps [simp del]

definition containsCode :: "string \<Rightarrow> nat" where
  "containsCode s = length (getCodeBlocks s)"


subsection \<open>Links\<close>


definition domainChar :: "char \<Rightarrow> char \<Rightarrow> bool" where
  \<comment> \<open>one character of the domain, as a regex atom, against one character of the text\<close>
  "domainChar p c = (if p = CHR ''.'' then dot c else c = p)"

fun domainPattern :: "string \<Rightarrow> (string \<Rightarrow> 'a option) \<Rightarrow> string \<Rightarrow> 'a option" where
  "domainPattern [] k s = k s"
| "domainPattern (p # ps) k [] = None"
| "domainPattern (p # ps) k (c # cs) = (if domainChar p c then domainPattern ps k cs else None)"

definition urlPath :: "string \<Rightarrow> string option" where
  \<comment> \<open>\<^verbatim>\<open>(\/[A-Za-z0-9...]*)?\<close> and the end of the pattern: the text after the match\<close>
  "urlPath s = orElse (lit ''/'' (\<lambda>s1. greedy pathChar (\<lambda>_ s2. Some s2) [] s1) s) (Some s)"

definition urlHost :: "string \<Rightarrow> string \<Rightarrow> string option" where
  \<comment> \<open>\<^verbatim>\<open>(.+?\.)?\<close> \<open>domain\<close> and what follows\<close>
  "urlHost d s =
     orElse (lazy1 dot (\<lambda>_ s1. lit ''.'' (domainPattern d urlPath) s1) s)
            (domainPattern d urlPath s)"

definition urlMatch :: "string \<Rightarrow> string \<Rightarrow> string option" where
  \<comment> \<open>the whole pattern at the head of the text\<close>
  "urlMatch d s =
     lit ''http'' (\<lambda>s1.
       orElse (lit ''s'' (\<lambda>s2. lit ''://'' (urlHost d) s2) s1)
              (lit ''://'' (urlHost d) s1)) s"

lemma domainPattern_SomeD:
  "domainPattern d k s = Some y \<Longrightarrow>
     \<exists>a b. s = a @ b \<and> list_all2 domainChar d a \<and> k b = Some y"
proof (induction d k s rule: domainPattern.induct)
  case (1 k s)
  then have "s = [] @ s \<and> list_all2 domainChar [] [] \<and> k s = Some y" by simp
  then show ?case by blast
next
  case (2 p ps k)
  then show ?case by simp
next
  case (3 p ps k c cs)
  then have pc: "domainChar p c" and r: "domainPattern ps k cs = Some y"
    by (simp_all split: if_splits)
  from "3.IH" [OF pc r] obtain a b where "cs = a @ b" "list_all2 domainChar ps a" "k b = Some y"
    by blast
  with pc have "c # cs = (c # a) @ b \<and> list_all2 domainChar (p # ps) (c # a) \<and> k b = Some y"
    by simp
  then show ?case by blast
qed

lemma urlPath_SomeD:
  assumes "urlPath s = Some rest"
  shows "\<exists>p. s = p @ rest \<and> (p = [] \<or> (\<exists>q. p = CHR ''/'' # q \<and> (\<forall>c\<in>set q. pathChar c)))"
proof -
  from orElse_SomeD [OF assms [unfolded urlPath_def]] show ?thesis
  proof
    assume a: "lit ''/'' (\<lambda>s1. greedy pathChar (\<lambda>_ s2. Some s2) [] s1) s = Some rest"
    from lit_SomeD [OF a] obtain s1 where s1: "s = ''/'' @ s1"
      and g: "greedy pathChar (\<lambda>_ s2. Some s2) [] s1 = Some rest"
      by blast
    from greedy_SomeD [OF g] obtain q b where "s1 = q @ b" "\<forall>c\<in>set q. pathChar c" "Some b = Some rest"
      by blast
    with s1 have "s = (CHR ''/'' # q) @ rest \<and> (\<forall>c\<in>set q. pathChar c)"
      by simp
    then show ?thesis by blast
  next
    assume "lit ''/'' (\<lambda>s1. greedy pathChar (\<lambda>_ s2. Some s2) [] s1) s = None \<and> Some s = Some rest"
    then have "s = [] @ rest" by simp
    then show ?thesis by blast
  qed
qed

lemma urlHost_SomeD:
  assumes "urlHost d s = Some rest"
  shows "\<exists>sub dom p. s = sub @ dom @ p @ rest \<and>
           (sub = [] \<or> (\<exists>x. x \<noteq> [] \<and> (\<forall>c\<in>set x. dot c) \<and> sub = x @ ''.'')) \<and>
           list_all2 domainChar d dom \<and>
           (p = [] \<or> (\<exists>q. p = CHR ''/'' # q \<and> (\<forall>c\<in>set q. pathChar c)))"
proof -
  from orElse_SomeD [OF assms [unfolded urlHost_def]] show ?thesis
  proof
    assume a: "lazy1 dot (\<lambda>_ s1. lit ''.'' (domainPattern d urlPath) s1) s = Some rest"
    from lazy1_SomeD [OF a] obtain x s1 where x: "x \<noteq> []" "s = x @ s1" "\<forall>c\<in>set x. dot c"
      and l: "lit ''.'' (domainPattern d urlPath) s1 = Some rest"
      by blast
    from lit_SomeD [OF l] obtain s2 where s2: "s1 = ''.'' @ s2"
      and dp: "domainPattern d urlPath s2 = Some rest"
      by blast
    from domainPattern_SomeD [OF dp] obtain dom s3 where dom: "s2 = dom @ s3" "list_all2 domainChar d dom"
      and up: "urlPath s3 = Some rest"
      by blast
    from urlPath_SomeD [OF up] obtain p where p: "s3 = p @ rest"
      "p = [] \<or> (\<exists>q. p = CHR ''/'' # q \<and> (\<forall>c\<in>set q. pathChar c))"
      by blast
    from x s2 dom p have "s = (x @ ''.'') @ dom @ p @ rest \<and>
           (x \<noteq> [] \<and> (\<forall>c\<in>set x. dot c) \<and> x @ ''.'' = x @ ''.'') \<and>
           list_all2 domainChar d dom \<and>
           (p = [] \<or> (\<exists>q. p = CHR ''/'' # q \<and> (\<forall>c\<in>set q. pathChar c)))"
      by simp
    then show ?thesis by blast
  next
    assume "lazy1 dot (\<lambda>_ s1. lit ''.'' (domainPattern d urlPath) s1) s = None \<and>
            domainPattern d urlPath s = Some rest"
    then have dp: "domainPattern d urlPath s = Some rest" by simp
    from domainPattern_SomeD [OF dp] obtain dom s3 where dom: "s = dom @ s3" "list_all2 domainChar d dom"
      and up: "urlPath s3 = Some rest"
      by blast
    from urlPath_SomeD [OF up] obtain p where p: "s3 = p @ rest"
      "p = [] \<or> (\<exists>q. p = CHR ''/'' # q \<and> (\<forall>c\<in>set q. pathChar c))"
      by blast
    from dom p have "s = [] @ dom @ p @ rest \<and> list_all2 domainChar d dom \<and>
           (p = [] \<or> (\<exists>q. p = CHR ''/'' # q \<and> (\<forall>c\<in>set q. pathChar c)))"
      by simp
    then show ?thesis by blast
  qed
qed


lemma urlMatch_SomeD:
  assumes "urlMatch d s = Some rest"
  shows "\<exists>scheme sub dom p. s = scheme @ sub @ dom @ p @ rest \<and>
           (scheme = ''http://'' \<or> scheme = ''https://'') \<and>
           (sub = [] \<or> (\<exists>x. x \<noteq> [] \<and> (\<forall>c\<in>set x. dot c) \<and> sub = x @ ''.'')) \<and>
           list_all2 domainChar d dom \<and>
           (p = [] \<or> (\<exists>q. p = CHR ''/'' # q \<and> (\<forall>c\<in>set q. pathChar c)))"
proof -
  from lit_SomeD [OF assms [unfolded urlMatch_def]] obtain s1 where s1: "s = ''http'' @ s1"
    and alt: "orElse (lit ''s'' (\<lambda>s2. lit ''://'' (urlHost d) s2) s1) (lit ''://'' (urlHost d) s1) = Some rest"
    by blast
  have "\<exists>scheme s3. s = scheme @ s3 \<and> (scheme = ''http://'' \<or> scheme = ''https://'') \<and>
          urlHost d s3 = Some rest"
    using orElse_SomeD [OF alt]
  proof
    assume a: "lit ''s'' (\<lambda>s2. lit ''://'' (urlHost d) s2) s1 = Some rest"
    from lit_SomeD [OF a] obtain s2 where s2: "s1 = ''s'' @ s2" and b: "lit ''://'' (urlHost d) s2 = Some rest"
      by blast
    from lit_SomeD [OF b] obtain s3 where "s2 = ''://'' @ s3" "urlHost d s3 = Some rest"
      by blast
    with s1 s2 have "s = ''https://'' @ s3 \<and> urlHost d s3 = Some rest" by simp
    then show ?thesis by blast
  next
    assume "lit ''s'' (\<lambda>s2. lit ''://'' (urlHost d) s2) s1 = None \<and> lit ''://'' (urlHost d) s1 = Some rest"
    then have b: "lit ''://'' (urlHost d) s1 = Some rest" by simp
    from lit_SomeD [OF b] obtain s3 where "s1 = ''://'' @ s3" "urlHost d s3 = Some rest"
      by blast
    with s1 have "s = ''http://'' @ s3 \<and> urlHost d s3 = Some rest" by simp
    then show ?thesis by blast
  qed
  then obtain scheme s3 where sc: "s = scheme @ s3" "scheme = ''http://'' \<or> scheme = ''https://''"
    and h: "urlHost d s3 = Some rest"
    by blast
  from urlHost_SomeD [OF h] obtain sub dom p where "s3 = sub @ dom @ p @ rest"
    "sub = [] \<or> (\<exists>x. x \<noteq> [] \<and> (\<forall>c\<in>set x. dot c) \<and> sub = x @ ''.'')"
    "list_all2 domainChar d dom"
    "p = [] \<or> (\<exists>q. p = CHR ''/'' # q \<and> (\<forall>c\<in>set q. pathChar c))"
    by blast
  with sc show ?thesis by blast
qed

lemma urlMatch_shorter:
  assumes "urlMatch d s = Some rest"
  shows "length rest < length s"
proof -
  from urlMatch_SomeD [OF assms] obtain scheme sub dom p where
    "s = scheme @ sub @ dom @ p @ rest" "scheme = ''http://'' \<or> scheme = ''https://''"
    by blast
  then show ?thesis by auto
qed

text \<open>
  \<^verbatim>\<open>string.match(regex) || []\<close> with a global regex: the matched substrings, left to
  right, each search starting where the match before it ended.
\<close>

function matchUrlWithDomain :: "string \<Rightarrow> string \<Rightarrow> string list" where
  "matchUrlWithDomain s d =
     (case urlMatch d s of
        Some rest \<Rightarrow> take (length s - length rest) s # matchUrlWithDomain rest d
      | None \<Rightarrow> (case s of [] \<Rightarrow> [] | c # cs \<Rightarrow> matchUrlWithDomain cs d))"
  by pat_completeness auto
termination
proof (relation "measure (\<lambda>(s, d). length s)")
  fix s d rest :: string
  assume "urlMatch d s = Some rest"
  then show "((rest, d), (s, d)) \<in> measure (\<lambda>(s, d). length s)"
    using urlMatch_shorter [of d s rest] by simp
qed simp_all

declare matchUrlWithDomain.simps [simp del]

section \<open>The archival pipeline\<close>

text \<open>
  The configuration file \<^verbatim>\<open>config.js\<close> is read through three of its fields.
\<close>

record config =
  domains :: "string list"
  parse :: bool
  oneshot :: bool

definition getLinks :: "config \<Rightarrow> string \<Rightarrow> string list" where
  "getLinks cfg s = concat (map (\<lambda>domain. matchUrlWithDomain s domain) (domains cfg))"

definition containsUrl :: "config \<Rightarrow> string \<Rightarrow> nat" where
  "containsUrl cfg s = length (getLinks cfg s)"

text \<open>
  The objects of the chat library, with the fields the bot reads. A message of a fetched
  page carries its cached versions in \<open>edits\<close>, latest first.
\<close>

record channel =
  chanType :: string
  chanName :: string
  recipientTag :: string

record snapshot =
  msgId :: string
  content :: string
  createdTimestamp :: int
  editedTimestamp :: "int option"
  channel :: channel
  authorTag :: string
  guildName :: "string option"

record message = snapshot +
  edits :: "snapshot list"

datatype val = Str string | Num int | Undefined

datatype out = Log string | Err string

datatype exn = TypeError

text \<open>
  The state of the process: the rows handed to the database (table and values, in the order
  of the \<^verbatim>\<open>INSERT\<close> statements), the console, the global counter of channels still to scan,
  the page requests sent (channel, limit, cursor), the channels with a request in flight,
  whether the database handle is open, and the exit code once the process has exited.
  The database is the storage collaborator: a row handed to it is a row of its table, and
  an insert it refuses comes back later as the event \<open>InsertFailed\<close>. The start of the
  process (\<^verbatim>\<open>main\<close>, \<^verbatim>\<open>prepareDatabase\<close>, the login) comes before the first event;
  the model begins in the state \<open>started\<close>.
\<close>

record state =
  inserted :: "(string \<times> val list) list"
  console :: "out list"
  channelsRemaining :: int
  fetchCalls :: "(channel \<times> nat \<times> string option) list"
  pending :: "channel list"
  databaseOpen :: bool
  exited :: "int option"

definition started :: state where
  \<comment> \<open>after \<^verbatim>\<open>prepareDatabase\<close>, before the first event\<close>
  "started = \<lparr>inserted = [], console = [], channelsRemaining = 0, fetchCalls = [],
              pending = [], databaseOpen = True, exited = None\<rparr>"

definition log :: "string \<Rightarrow> state \<Rightarrow> state" where
  "log line st = st\<lparr>console := console st @ [Log line]\<rparr>"

definition logError :: "string \<Rightarrow> state \<Rightarrow> state" where
  "logError line st = st\<lparr>console := console st @ [Err line]\<rparr>"

definition insertRow :: "string \<Rightarrow> val list \<Rightarrow> state \<Rightarrow> state" where
  "insertRow table values st = st\<lparr>inserted := inserted st @ [(table, values)]\<rparr>"

definition getLatestTimestamp :: "snapshot \<Rightarrow> int" where
  \<comment> \<open>\<^verbatim>\<open>message.editedTimestamp || message.createdTimestamp\<close>: \<^verbatim>\<open>null\<close> and \<^verbatim>\<open>0\<close> are falsy\<close>
  "getLatestTimestamp m =
     (case editedTimestamp m of
        Some t \<Rightarrow> if t \<noteq> 0 then t else createdTimestamp m
      | None \<Rightarrow> createdTimestamp m)"

definition getChannelName :: "channel \<Rightarrow> val" where
  "getChannelName ch =
     (if chanType ch = ''dm'' then Str (recipientTag ch)
      else if chanType ch = ''group'' then Str (chanName ch)
      else if chanType ch = ''text'' then Str (''#'' @ chanName ch)
      else Undefined)"

definition createEntry :: "snapshot \<Rightarrow> state \<Rightarrow> state" where
  "createEntry m = insertRow ''Message'' [Str (msgId m), getChannelName (channel m), Str (authorTag m)]"

definition storeRevision :: "snapshot \<Rightarrow> state \<Rightarrow> state" where
  "storeRevision m = insertRow ''Content'' [Str (content m), Num (getLatestTimestamp m), Str (msgId m)]"

fun splitOn :: "char \<Rightarrow> string \<Rightarrow> string list" where
  "splitOn sep [] = [[]]"
| "splitOn sep (c # cs) =
     (if c = sep then [] # splitOn sep cs
      else (case splitOn sep cs of [] \<Rightarrow> [[c]] | l # ls \<Rightarrow> (c # l) # ls))"

fun join :: "string \<Rightarrow> string list \<Rightarrow> string" where
  "join sep [] = []"
| "join sep [l] = l"
| "join sep (l # ls) = l @ sep @ join sep ls"

definition tabNewlines :: "string \<Rightarrow> string" where
  "tabNewlines s =
     join [nl] (map (\<lambda>(i, line). if i \<noteq> 0 then tab # line else line) (enumerate 0 (splitOn nl s)))"

definition logMessage :: "snapshot \<Rightarrow> bool \<Rightarrow> state \<Rightarrow> state" where
  "logMessage m edit st =
     (let loggedMsg = tabNewlines (content m);
          e = (if edit then ''(edit) '' else [])
      in case guildName m of
           None \<Rightarrow> log (e @ authorTag m @ ''> '' @ loggedMsg) st
         | Some g \<Rightarrow> log (e @ g @ ''> #'' @ chanName (channel m) @ ''> '' @ authorTag m @ ''> '' @ loggedMsg) st)"

definition isRelevant :: "config \<Rightarrow> string \<Rightarrow> bool" where
  \<comment> \<open>the test of \<^verbatim>\<open>processMessage\<close>: \<^verbatim>\<open>containsCode(...) || containsUrl(...)\<close>, two lengths\<close>
  "isRelevant cfg s = (containsCode s \<noteq> 0 \<or> containsUrl cfg s \<noteq> 0)"

definition processMessage :: "config \<Rightarrow> snapshot \<Rightarrow> bool \<Rightarrow> state \<Rightarrow> state" where
  "processMessage cfg m edit st =
     (if isRelevant cfg (content m)
      then storeRevision m (if \<not> edit then createEntry m st else st)
      else st)"

definition processMessageEdits :: "config \<Rightarrow> message \<Rightarrow> state \<Rightarrow> exn + state" where
  \<comment> \<open>\<^verbatim>\<open>revisions[0]\<close> of an empty array is \<^verbatim>\<open>undefined\<close>, whose \<^verbatim>\<open>content\<close> cannot be read\<close>
  "processMessageEdits cfg m st =
     (case rev (edits m) of
        [] \<Rightarrow> Inl TypeError
      | original # later \<Rightarrow>
          Inr (fold (\<lambda>r. processMessage cfg r True) later (processMessage cfg original False st)))"

fun forEachMessage :: "config \<Rightarrow> message list \<Rightarrow> state \<Rightarrow> state \<times> exn option" where
  \<comment> \<open>\<^verbatim>\<open>messages.forEach(processMessageEdits)\<close>, stopped by the first exception\<close>
  "forEachMessage cfg [] st = (st, None)"
| "forEachMessage cfg (m # ms) st =
     (case processMessageEdits cfg m st of
        Inl e \<Rightarrow> (st, Some e)
      | Inr st' \<Rightarrow> forEachMessage cfg ms st')"

definition quit :: "string \<Rightarrow> state \<Rightarrow> state" where
  \<comment> \<open>\<^verbatim>\<open>console.log(message); closeDatabase(); process.exit(0)\<close>\<close>
  "quit line st = (log line st)\<lparr>databaseOpen := False, exited := Some 0\<rparr>"

definition limit :: nat where
  "limit = 100"

definition fetch :: "channel \<Rightarrow> string option \<Rightarrow> state \<Rightarrow> state" where
  \<comment> \<open>\<^verbatim>\<open>channel.fetchMessages({ limit: limit, before: before })\<close>: the request is sent\<close>
  "fetch ch before st =
     st\<lparr>fetchCalls := fetchCalls st @ [(ch, limit, before)], pending := pending st @ [ch]\<rparr>"

definition finished :: "config \<Rightarrow> channel \<Rightarrow> state \<Rightarrow> state" where
  \<comment> \<open>the \<^verbatim>\<open>else\<close> branch of the page callback\<close>
  "finished cfg ch st =
     (let st1 = log (''Finished scanning channel #'' @ chanName ch @ ''!'') st;
          st2 = st1\<lparr>channelsRemaining := channelsRemaining st1 - 1\<rparr>
      in if channelsRemaining st2 = 0
         then (if oneshot cfg then quit ''Scanning complete.'' st2 else log ''Scanning complete.'' st2)
         else st2)"

definition fetched :: "config \<Rightarrow> channel \<Rightarrow> message list \<Rightarrow> state \<Rightarrow> state" where
  \<comment> \<open>the \<^verbatim>\<open>then\<close> callback of a page request, and \<^verbatim>\<open>catch(console.error)\<close> behind it\<close>
  "fetched cfg ch messages st =
     (case forEachMessage cfg messages st of
        (st1, Some e) \<Rightarrow> logError ''TypeError'' st1
      | (st1, None) \<Rightarrow>
          if length messages = limit then fetch ch (Some (msgId (last messages))) st1
          else finished cfg ch st1)"

definition scanChannel :: "channel \<Rightarrow> state \<Rightarrow> state" where
  "scanChannel ch st = fetch ch None (log (''Scanning channel #'' @ chanName ch @ ''...'') st)"

definition scanHistory :: "channel list list \<Rightarrow> state \<Rightarrow> state" where
  \<comment> \<open>the argument is \<^verbatim>\<open>client.guilds\<close>, each guild with its channels\<close>
  "scanHistory guilds st =
     (let st1 = log ''Preparing to scan chat history...'' st;
          channels = concat (map (\<lambda>guild. filter (\<lambda>ch. chanType ch = ''text'') guild) guilds);
          st2 = st1\<lparr>channelsRemaining := int (length channels)\<rparr>
      in fold scanChannel channels st2)"

text \<open>
  The process reacts to events, one callback at a time: the login, a message created or
  edited, the answer to a page request (a page, or an error), and the database reporting a
  failed insert. A process that has exited reacts to nothing; an answer for a channel with no
  request in flight does not occur and changes nothing.
\<close>

datatype event =
    Ready string "channel list list"
  | MessageCreate snapshot
  | MessageUpdate snapshot snapshot
  | FetchResolved channel "message list"
  | FetchRejected channel string
  | InsertFailed string

definition handle :: "config \<Rightarrow> event \<Rightarrow> state \<Rightarrow> state" where
  "handle cfg ev st =
     (if exited st \<noteq> None then st
      else case ev of
        Ready tag guilds \<Rightarrow>
          (let st1 = log (''Logged in as '' @ tag @ ''!'') st
           in if parse cfg then scanHistory guilds st1 else st1)
      | MessageCreate m \<Rightarrow>
          if parse cfg \<and> oneshot cfg then st
          else processMessage cfg m False (logMessage m False st)
      | MessageUpdate oldMessage newMessage \<Rightarrow>
          if parse cfg \<and> oneshot cfg then st
          else processMessage cfg newMessage True (logMessage newMessage True st)
      | FetchResolved ch messages \<Rightarrow>
          if ch \<in> set (pending st)
          then fetched cfg ch messages (st\<lparr>pending := remove1 ch (pending st)\<rparr>)
          else st
      | FetchRejected ch e \<Rightarrow>
          if ch \<in> set (pending st)
          then logError e (st\<lparr>pending := remove1 ch (pending st)\<rparr>)
          else st
      | InsertFailed e \<Rightarrow> logError (''Error inserting row: '' @ e) st)"

definition run :: "config \<Rightarrow> event list \<Rightarrow> state \<Rightarrow> state" where
  "run cfg evs st = fold (handle cfg) evs st"


section \<open>What the properties are stated with\<close>

subsection \<open>Rows and runs\<close>

text \<open>
  The rows of one table, in the order they were handed to the database; the two rows the
  bot writes for a message; the rows the crawler writes for a fetched message whose edit
  history is not empty; the login event; and the state of a crawl of one channel whose only
  request was sent and failed.
\<close>

definition rowsOf :: "string \<Rightarrow> state \<Rightarrow> val list list" where
  "rowsOf table st = map snd (filter (\<lambda>r. fst r = table) (inserted st))"

definition entryRow :: "snapshot \<Rightarrow> val list" where
  "entryRow m = [Str (msgId m), getChannelName (channel m), Str (authorTag m)]"

definition revisionRow :: "snapshot \<Rightarrow> val list" where
  "revisionRow m = [Str (content m), Num (getLatestTimestamp m), Str (msgId m)]"

definition crawled :: "config \<Rightarrow> message \<Rightarrow> (string \<times> val list) list" where
  "crawled cfg m =
     (if isRelevant cfg (content (last (edits m))) then [(''Message'', entryRow (last (edits m)))] else []) @
     map (\<lambda>r. (''Content'', revisionRow r)) (filter (\<lambda>r. isRelevant cfg (content r)) (rev (edits m)))"

definition isReady :: "event \<Rightarrow> bool" where
  "isReady ev = (case ev of Ready _ _ \<Rightarrow> True | _ \<Rightarrow> False)"

definition stalled :: "channel \<Rightarrow> state \<Rightarrow> bool" where
  \<comment> \<open>one channel was to be scanned, its only request was sent and nothing is in flight\<close>
  "stalled ch st = (pending st = [] \<and> channelsRemaining st = 1 \<and> exited st = None \<and>
     fetchCalls st = [(ch, limit, None)])"

subsection \<open>The two patterns, in words\<close>

text \<open>
  What the specification says a fenced block is, written without a regular expression, to be
  compared with \<open>codeMatch\<close>: the opening fence; a language tag, which is a non-empty run of
  lowercase letters followed by a newline; the body, up to the nearest closing fence; and as
  code the body without the newlines at its beginning and at its end.
\<close>

fun splitFence :: "string \<Rightarrow> (string \<times> string) option" where
  "splitFence [] = None"
| "splitFence (c # cs) =
     (if prefix fence (c # cs) then Some ([], drop 3 (c # cs))
      else map_option (\<lambda>(body, rest). (c # body, rest)) (splitFence cs))"

definition trimNl :: "string \<Rightarrow> string" where
  "trimNl s = rev (dropWhile isNl (rev (dropWhile isNl s)))"

definition rstripNl :: "string \<Rightarrow> string" where
  "rstripNl s = rev (dropWhile isNl (rev s))"

definition langTag :: "string \<Rightarrow> string option \<times> string" where
  "langTag s =
     (case dropWhile lower s of
        c # t \<Rightarrow> if c = nl \<and> takeWhile lower s \<noteq> [] then (Some (takeWhile lower s), t) else (None, s)
      | [] \<Rightarrow> (None, s))"

definition fencedBlock :: "string \<Rightarrow> (block \<times> string) option" where
  "fencedBlock s =
     (if prefix fence s
      then (case langTag (drop 3 s) of
              (lang, t) \<Rightarrow>
                (case splitFence t of
                   None \<Rightarrow> None
                 | Some (body, rest) \<Rightarrow> Some ((lang, trimNl body), rest)))
      else None)"





subsection \<open>The messages of the examples\<close>

text \<open>
  The message of the end-to-end scenario: in the channel \<^verbatim>\<open>#general\<close>, from
  \<^verbatim>\<open>alice#0001\<close>, a code block, later edited.
\<close>

definition general :: channel where
  "general = \<lparr>chanType = ''text'', chanName = ''general'', recipientTag = []\<rparr>"

definition exampleConfig :: config where
  "exampleConfig = \<lparr>domains = [''pastebin.com'', ''hastebin.com''], parse = False, oneshot = False\<rparr>"

definition crawlConfig :: config where
  "crawlConfig = \<lparr>domains = [''pastebin.com'', ''hastebin.com''], parse = True, oneshot = True\<rparr>"

definition aliceOriginal :: snapshot where
  "aliceOriginal = \<lparr>msgId = ''1001'', content = ''check this out ```js\<newline>console.log(1)\<newline>```'',
     createdTimestamp = 1500000000000, editedTimestamp = None, channel = general,
     authorTag = ''alice#0001'', guildName = Some ''guild''\<rparr>"

definition aliceEdited :: snapshot where
  "aliceEdited = aliceOriginal\<lparr>content := ''see ``` js\<newline>console.log(2)\<newline>``` thanks'',
     editedTimestamp := Some 1500000060000\<rparr>"

definition alicePlain :: snapshot where
  "alicePlain = aliceOriginal\<lparr>content := ''never mind'', editedTimestamp := Some 1500000120000\<rparr>"

definition aliceAgain :: snapshot where
  "aliceAgain = aliceOriginal\<lparr>content := ''final https://pastebin.com/raw/abc'',
     editedTimestamp := Some 1500000120000\<rparr>"

definition aliceThree :: message where
  "aliceThree = \<lparr>msgId = ''1001'', content = ''final https://pastebin.com/raw/abc'',
     createdTimestamp = 1500000000000, editedTimestamp = Some 1500000120000, channel = general,
     authorTag = ''alice#0001'', guildName = Some ''guild'',
     edits = [aliceAgain, aliceEdited, aliceOriginal]\<rparr>"

definition aliceRetracted :: message where
  "aliceRetracted = \<lparr>msgId = ''1001'', content = ''never mind'',
     createdTimestamp = 1500000000000, editedTimestamp = Some 1500000120000, channel = general,
     authorTag = ''alice#0001'', guildName = Some ''guild'',
     edits = [alicePlain, alicePlain, aliceOriginal]\<rparr>"

definition aliceLate :: message where
  "aliceLate = \<lparr>msgId = ''1001'', content = ''see ``` js\<newline>console.log(2)\<newline>``` thanks'',
     createdTimestamp = 1500000000000, editedTimestamp = Some 1500000060000, channel = general,
     authorTag = ''alice#0001'', guildName = Some ''guild'',
     edits = [aliceEdited, alicePlain]\<rparr>"

section \<open>Properties\<close>

subsection \<open>Storing a message\<close>

lemma processMessage_inserted:
  "inserted (processMessage cfg m edit st) =
     inserted st @
       (if isRelevant cfg (content m)
        then (if edit then [] else [(''Message'', entryRow m)]) @ [(''Content'', revisionRow m)]
        else [])"
  by (simp add: processMessage_def storeRevision_def createEntry_def insertRow_def
      entryRow_def revisionRow_def)

lemma processMessage_frame:
  "console (processMessage cfg m edit st) = console st"
  "channelsRemaining (processMessage cfg m edit st) = channelsRemaining st"
  "fetchCalls (processMessage cfg m edit st) = fetchCalls st"
  "pending (processMessage cfg m edit st) = pending st"
  "databaseOpen (processMessage cfg m edit st) = databaseOpen st"
  "exited (processMessage cfg m edit st) = exited st"
  by (simp_all add: processMessage_def storeRevision_def createEntry_def insertRow_def)

lemma aliceOriginal_relevant: "isRelevant exampleConfig (content aliceOriginal)"
  by code_simp

lemma aliceEdited_relevant: "isRelevant exampleConfig (content aliceEdited)"
  by code_simp

lemma alicePlain_irrelevant: "\<not> isRelevant exampleConfig (content alicePlain)"
  by code_simp


text \<open>
  C8. The timestamp stored with a revision is the edit time of the message when it has been
  edited, and its creation time otherwise. Every row of the table \<^verbatim>\<open>Content\<close> is written
  by \<open>processMessage\<close>, on the crawl as on a live event. The source reads the edit time with
  \<^verbatim>\<open>||\<close>, which takes a zero edit time for a missing one; a timestamp is a number of
  milliseconds since 1970, and no message was edited at instant zero.
\<close>

theorem revision_timestamp:
  assumes "editedTimestamp m \<noteq> Some 0"
  shows "rowsOf ''Content'' (processMessage cfg m edit st) =
           rowsOf ''Content'' st @
             (if isRelevant cfg (content m)
              then [[Str (content m),
                     Num (case editedTimestamp m of Some t \<Rightarrow> t | None \<Rightarrow> createdTimestamp m),
                     Str (msgId m)]]
              else [])"
  using assms
  by (simp add: rowsOf_def processMessage_inserted revisionRow_def getLatestTimestamp_def
      split: option.splits)

theorem revision_timestamp_witness:
  "editedTimestamp aliceEdited \<noteq> Some 0 \<and>
   rowsOf ''Content'' (processMessage exampleConfig aliceEdited True started) =
     [[Str ''see ``` js\<newline>console.log(2)\<newline>``` thanks'', Num 1500000060000, Str ''1001'']] \<and>
   editedTimestamp aliceOriginal \<noteq> Some 0 \<and>
   rowsOf ''Content'' (processMessage exampleConfig aliceOriginal False started) =
     [[Str ''check this out ```js\<newline>console.log(1)\<newline>```'', Num 1500000000000, Str ''1001'']]"
proof -
  have e: "editedTimestamp aliceEdited \<noteq> Some 0" and o: "editedTimestamp aliceOriginal \<noteq> Some 0"
    by (simp_all add: aliceEdited_def aliceOriginal_def)
  have s: "rowsOf ''Content'' started = []"
    by (simp add: rowsOf_def started_def)
  show ?thesis
    using revision_timestamp [OF e, of exampleConfig True started]
      revision_timestamp [OF o, of exampleConfig False started] aliceOriginal_relevant aliceEdited_relevant s
    by (simp add: aliceEdited_def aliceOriginal_def)
qed

subsection \<open>The versions of a fetched message\<close>

lemma fold_processMessage_inserted:
  "inserted (fold (\<lambda>r. processMessage cfg r True) rs st) =
     inserted st @ map (\<lambda>r. (''Content'', revisionRow r)) (filter (\<lambda>r. isRelevant cfg (content r)) rs)"
  by (induction rs arbitrary: st) (simp_all add: processMessage_inserted)

lemma fold_processMessage_frame:
  "console (fold (\<lambda>r. processMessage cfg r True) rs st) = console st"
  "channelsRemaining (fold (\<lambda>r. processMessage cfg r True) rs st) = channelsRemaining st"
  "fetchCalls (fold (\<lambda>r. processMessage cfg r True) rs st) = fetchCalls st"
  "pending (fold (\<lambda>r. processMessage cfg r True) rs st) = pending st"
  "databaseOpen (fold (\<lambda>r. processMessage cfg r True) rs st) = databaseOpen st"
  "exited (fold (\<lambda>r. processMessage cfg r True) rs st) = exited st"
  by (induction rs arbitrary: st) (simp_all add: processMessage_frame)

lemma processMessageEdits_Inr:
  assumes "edits m \<noteq> []"
  shows "\<exists>st'. processMessageEdits cfg m st = Inr st' \<and>
           inserted st' = inserted st @ crawled cfg m \<and>
           console st' = console st \<and> channelsRemaining st' = channelsRemaining st \<and>
           fetchCalls st' = fetchCalls st \<and> pending st' = pending st \<and>
           databaseOpen st' = databaseOpen st \<and> exited st' = exited st"
proof -
  from assms have r: "rev (edits m) = last (edits m) # rev (butlast (edits m))"
    by (metis append_butlast_last_id rev.simps(2) rev_rev_ident rev_swap singleton_rev_conv)
  show ?thesis
    by (simp add: processMessageEdits_def r fold_processMessage_inserted fold_processMessage_frame
        processMessage_inserted processMessage_frame crawled_def)
qed

lemma processMessageEdits_Inl:
  "edits m = [] \<Longrightarrow> processMessageEdits cfg m st = Inl TypeError"
  by (simp add: processMessageEdits_def)

lemma processMessageEdits_prefix:
  "processMessageEdits cfg m st = Inr st' \<Longrightarrow>
     prefix (inserted st) (inserted st') \<and>
     console st' = console st \<and> channelsRemaining st' = channelsRemaining st \<and>
     fetchCalls st' = fetchCalls st \<and> pending st' = pending st \<and>
     databaseOpen st' = databaseOpen st \<and> exited st' = exited st"
proof (cases "edits m = []")
  case True
  assume "processMessageEdits cfg m st = Inr st'"
  with True show ?thesis by (simp add: processMessageEdits_Inl)
next
  case False
  assume a: "processMessageEdits cfg m st = Inr st'"
  from processMessageEdits_Inr [OF False, of cfg st] a show ?thesis
    by auto
qed

lemma forEachMessage_prefix:
  "forEachMessage cfg ms st = (st', r) \<Longrightarrow>
     prefix (inserted st) (inserted st') \<and>
     console st' = console st \<and> channelsRemaining st' = channelsRemaining st \<and>
     fetchCalls st' = fetchCalls st \<and> pending st' = pending st \<and>
     databaseOpen st' = databaseOpen st \<and> exited st' = exited st"
proof (induction ms arbitrary: st)
  case Nil
  then show ?case by simp
next
  case (Cons m ms)
  show ?case
  proof (cases "processMessageEdits cfg m st")
    case (Inl e)
    with Cons.prems show ?thesis by simp
  next
    case (Inr st1)
    with Cons.prems have "forEachMessage cfg ms st1 = (st', r)" by simp
    from Cons.IH [OF this] processMessageEdits_prefix [OF Inr] show ?thesis
      by (auto intro: prefix_order.trans)
  qed
qed

lemma forEachMessage_ok:
  assumes "\<forall>m\<in>set ms. edits m \<noteq> []"
  shows "\<exists>st'. forEachMessage cfg ms st = (st', None) \<and>
           inserted st' = inserted st @ concat (map (crawled cfg) ms)"
  using assms
proof (induction ms arbitrary: st)
  case Nil
  then show ?case by simp
next
  case (Cons m ms)
  then have "edits m \<noteq> []" by simp
  from processMessageEdits_Inr [OF this, of cfg st] obtain st1 where
    1: "processMessageEdits cfg m st = Inr st1" "inserted st1 = inserted st @ crawled cfg m"
    by blast
  from Cons have "\<forall>m\<in>set ms. edits m \<noteq> []" by simp
  from Cons.IH [OF this, of st1] obtain st' where
    "forEachMessage cfg ms st1 = (st', None)" "inserted st' = inserted st1 @ concat (map (crawled cfg) ms)"
    by blast
  with 1 show ?case by simp
qed

lemma aliceAgain_relevant: "isRelevant exampleConfig (content aliceAgain)"
  by code_simp

text \<open>
  C1 (amended). The crawler hands the versions of a message to the store oldest first. Each
  version passes the relevance test on its own: a revision is appended for each relevant
  version, in chronological order, and the identity row is created once, for the original,
  when the original is relevant. A message with three versions gets three revisions when all
  three versions are relevant.
\<close>

theorem crawl_revisions_in_order:
  assumes "edits m \<noteq> []"
  shows "\<exists>st'. processMessageEdits cfg m st = Inr st' \<and>
           rowsOf ''Content'' st' =
             rowsOf ''Content'' st @
               map revisionRow (filter (\<lambda>r. isRelevant cfg (content r)) (rev (edits m))) \<and>
           rowsOf ''Message'' st' =
             rowsOf ''Message'' st @
               (if isRelevant cfg (content (last (edits m))) then [entryRow (last (edits m))] else []) \<and>
           (length (edits m) = 3 \<and> (\<forall>r\<in>set (edits m). isRelevant cfg (content r)) \<longrightarrow>
              rowsOf ''Content'' st' = rowsOf ''Content'' st @ map revisionRow (rev (edits m)) \<and>
              length (rowsOf ''Content'' st') = length (rowsOf ''Content'' st) + 3 \<and>
              length (rowsOf ''Message'' st') = length (rowsOf ''Message'' st) + 1)"
proof -
  from processMessageEdits_Inr [OF assms, of cfg st] obtain st' where
    1: "processMessageEdits cfg m st = Inr st'" and 2: "inserted st' = inserted st @ crawled cfg m"
    by blast
  have c: "rowsOf ''Content'' st' =
             rowsOf ''Content'' st @
               map revisionRow (filter (\<lambda>r. isRelevant cfg (content r)) (rev (edits m)))"
    by (simp add: rowsOf_def 2 crawled_def filter_map comp_def)
  have e: "rowsOf ''Message'' st' =
             rowsOf ''Message'' st @
               (if isRelevant cfg (content (last (edits m))) then [entryRow (last (edits m))] else [])"
    by (simp add: rowsOf_def 2 crawled_def filter_map comp_def)
  have l: "last (edits m) \<in> set (edits m)"
    using assms by simp
  have "length (edits m) = 3 \<and> (\<forall>r\<in>set (edits m). isRelevant cfg (content r)) \<longrightarrow>
              rowsOf ''Content'' st' = rowsOf ''Content'' st @ map revisionRow (rev (edits m)) \<and>
              length (rowsOf ''Content'' st') = length (rowsOf ''Content'' st) + 3 \<and>
              length (rowsOf ''Message'' st') = length (rowsOf ''Message'' st) + 1"
    using l by (simp add: c e)
  with 1 c e show ?thesis by blast
qed

theorem crawl_revisions_in_order_witness:
  "edits aliceThree \<noteq> [] \<and> length (edits aliceThree) = 3 \<and>
   list_all (\<lambda>r. isRelevant exampleConfig (content r)) (edits aliceThree) \<and>
   (\<exists>st'. processMessageEdits exampleConfig aliceThree started = Inr st' \<and>
      rowsOf ''Content'' st' =
        [revisionRow aliceOriginal, revisionRow aliceEdited, revisionRow aliceAgain] \<and>
      rowsOf ''Message'' st' = [entryRow aliceOriginal])"
proof -
  have n: "edits aliceThree \<noteq> []" and t: "length (edits aliceThree) = 3"
    by (simp_all add: aliceThree_def)
  have a: "\<forall>r\<in>set (edits aliceThree). isRelevant exampleConfig (content r)"
    using aliceOriginal_relevant aliceEdited_relevant aliceAgain_relevant
    by (simp add: aliceThree_def)
  have s: "rowsOf ''Content'' started = []" "rowsOf ''Message'' started = []"
    by (simp_all add: rowsOf_def started_def)
  have l: "last (edits aliceThree) = aliceOriginal" "rev (edits aliceThree) = [aliceOriginal, aliceEdited, aliceAgain]"
    by (simp_all add: aliceThree_def)
  from crawl_revisions_in_order [OF n, of exampleConfig started] obtain st' where
    "processMessageEdits exampleConfig aliceThree started = Inr st'"
    "rowsOf ''Content'' st' = rowsOf ''Content'' started @
       map revisionRow (filter (\<lambda>r. isRelevant exampleConfig (content r)) (rev (edits aliceThree)))"
    "rowsOf ''Message'' st' = rowsOf ''Message'' started @
       (if isRelevant exampleConfig (content (last (edits aliceThree))) then [entryRow (last (edits aliceThree))] else [])"
    by blast
  then have "processMessageEdits exampleConfig aliceThree started = Inr st' \<and>
      rowsOf ''Content'' st' =
        [revisionRow aliceOriginal, revisionRow aliceEdited, revisionRow aliceAgain] \<and>
      rowsOf ''Message'' st' = [entryRow aliceOriginal]"
    using s l aliceOriginal_relevant aliceEdited_relevant aliceAgain_relevant by simp
  moreover have "list_all (\<lambda>r. isRelevant exampleConfig (content r)) (edits aliceThree)"
    using a by (simp add: list_all_iff)
  ultimately show ?thesis using n t by blast
qed

text \<open>
  C1 as stated fails: a message with three versions whose original is relevant and whose two
  edits are not gets one revision, not three.
\<close>

theorem three_versions_one_revision:
  "length (edits aliceRetracted) = 3 \<and>
   isRelevant exampleConfig (content (last (edits aliceRetracted))) \<and>
   processMessageEdits exampleConfig aliceRetracted started =
     Inr (started\<lparr>inserted :=
       [(''Message'', [Str ''1001'', Str ''#general'', Str ''alice#0001'']),
        (''Content'', [Str ''check this out ```js\<newline>console.log(1)\<newline>```'', Num 1500000000000, Str ''1001''])]\<rparr>)"
proof -
  have 1: "length (edits aliceRetracted) = 3" and 2: "last (edits aliceRetracted) = aliceOriginal"
    by (simp_all add: aliceRetracted_def)
  have 3: "processMessageEdits exampleConfig aliceRetracted started =
     Inr (started\<lparr>inserted :=
       [(''Message'', [Str ''1001'', Str ''#general'', Str ''alice#0001'']),
        (''Content'', [Str ''check this out ```js\<newline>console.log(1)\<newline>```'', Num 1500000000000, Str ''1001''])]\<rparr>)"
    using aliceOriginal_relevant alicePlain_irrelevant
    by (simp add: processMessageEdits_def aliceRetracted_def processMessage_def storeRevision_def
        createEntry_def insertRow_def started_def getChannelName_def getLatestTimestamp_def
        aliceOriginal_def general_def)
  from 1 2 3 aliceOriginal_relevant show ?thesis by simp
qed

subsection \<open>What an event changes\<close>

lemma log_frame [simp]:
  "inserted (log l st) = inserted st"
  "console (log l st) = console st @ [Log l]"
  "channelsRemaining (log l st) = channelsRemaining st"
  "fetchCalls (log l st) = fetchCalls st"
  "pending (log l st) = pending st"
  "databaseOpen (log l st) = databaseOpen st"
  "exited (log l st) = exited st"
  by (simp_all add: log_def)

lemma logError_frame [simp]:
  "inserted (logError l st) = inserted st"
  "console (logError l st) = console st @ [Err l]"
  "channelsRemaining (logError l st) = channelsRemaining st"
  "fetchCalls (logError l st) = fetchCalls st"
  "pending (logError l st) = pending st"
  "databaseOpen (logError l st) = databaseOpen st"
  "exited (logError l st) = exited st"
  by (simp_all add: logError_def)

lemma logMessage_frame [simp]:
  "inserted (logMessage m e st) = inserted st"
  "channelsRemaining (logMessage m e st) = channelsRemaining st"
  "fetchCalls (logMessage m e st) = fetchCalls st"
  "pending (logMessage m e st) = pending st"
  "databaseOpen (logMessage m e st) = databaseOpen st"
  "exited (logMessage m e st) = exited st"
  by (simp_all add: logMessage_def Let_def split: option.splits)

lemma fetch_frame [simp]:
  "inserted (fetch ch b st) = inserted st"
  "console (fetch ch b st) = console st"
  "channelsRemaining (fetch ch b st) = channelsRemaining st"
  "fetchCalls (fetch ch b st) = fetchCalls st @ [(ch, limit, b)]"
  "pending (fetch ch b st) = pending st @ [ch]"
  "databaseOpen (fetch ch b st) = databaseOpen st"
  "exited (fetch ch b st) = exited st"
  by (simp_all add: fetch_def)

lemma finished_frame [simp]:
  "inserted (finished cfg ch st) = inserted st"
  "channelsRemaining (finished cfg ch st) = channelsRemaining st - 1"
  "fetchCalls (finished cfg ch st) = fetchCalls st"
  "pending (finished cfg ch st) = pending st"
  by (simp_all add: finished_def Let_def quit_def)

lemma finished_console:
  "console (finished cfg ch st) =
     console st @ [Log (''Finished scanning channel #'' @ chanName ch @ ''!'')] @
       (if channelsRemaining st = 1 then [Log ''Scanning complete.''] else [])"
  by (simp add: finished_def Let_def quit_def)

lemma finished_exited:
  "exited (finished cfg ch st) =
     (if channelsRemaining st = 1 \<and> oneshot cfg then Some 0 else exited st)"
  by (simp add: finished_def Let_def quit_def)

lemma scanChannel_frame [simp]:
  "inserted (scanChannel ch st) = inserted st"
  "console (scanChannel ch st) = console st @ [Log (''Scanning channel #'' @ chanName ch @ ''...'')]"
  "channelsRemaining (scanChannel ch st) = channelsRemaining st"
  "fetchCalls (scanChannel ch st) = fetchCalls st @ [(ch, limit, None)]"
  "pending (scanChannel ch st) = pending st @ [ch]"
  "databaseOpen (scanChannel ch st) = databaseOpen st"
  "exited (scanChannel ch st) = exited st"
  by (simp_all add: scanChannel_def)

lemma fold_scanChannel_frame [simp]:
  "inserted (fold scanChannel chs st) = inserted st"
  "channelsRemaining (fold scanChannel chs st) = channelsRemaining st"
  "fetchCalls (fold scanChannel chs st) = fetchCalls st @ map (\<lambda>ch. (ch, limit, None)) chs"
  "pending (fold scanChannel chs st) = pending st @ chs"
  "exited (fold scanChannel chs st) = exited st"
  by (induction chs arbitrary: st) simp_all

lemma scanHistory_frame [simp]:
  "inserted (scanHistory guilds st) = inserted st"
  "channelsRemaining (scanHistory guilds st) =
     int (length (concat (map (filter (\<lambda>ch. chanType ch = ''text'')) guilds)))"
  "fetchCalls (scanHistory guilds st) =
     fetchCalls st @ map (\<lambda>ch. (ch, limit, None)) (concat (map (filter (\<lambda>ch. chanType ch = ''text'')) guilds))"
  "pending (scanHistory guilds st) = pending st @ concat (map (filter (\<lambda>ch. chanType ch = ''text'')) guilds)"
  "exited (scanHistory guilds st) = exited st"
  by (simp_all add: scanHistory_def Let_def)

lemma fetched_inserted_prefix:
  "prefix (inserted st) (inserted (fetched cfg ch ms st))"
proof -
  obtain st1 r where f: "forEachMessage cfg ms st = (st1, r)"
    by (cases "forEachMessage cfg ms st")
  from forEachMessage_prefix [OF f] have "prefix (inserted st) (inserted st1)" by simp
  with f show ?thesis
    by (cases r) (simp_all add: fetched_def)
qed

lemma handle_inserted_prefix:
  "prefix (inserted st) (inserted (handle cfg ev st))"
proof (cases "exited st = None")
  case False
  then show ?thesis by (simp add: handle_def)
next
  case True
  show ?thesis
  proof (cases ev)
    case (Ready tag guilds)
    with True show ?thesis by (simp add: handle_def Let_def)
  next
    case (MessageCreate m)
    with True show ?thesis by (simp add: handle_def processMessage_inserted)
  next
    case (MessageUpdate old new)
    with True show ?thesis by (simp add: handle_def processMessage_inserted)
  next
    case (FetchResolved ch ms)
    from fetched_inserted_prefix [of "st\<lparr>pending := remove1 ch (pending st)\<rparr>" cfg ch ms]
    show ?thesis using True FetchResolved by (simp add: handle_def)
  next
    case (FetchRejected ch e)
    with True show ?thesis by (simp add: handle_def)
  next
    case (InsertFailed e)
    with True show ?thesis by (simp add: handle_def)
  qed
qed

lemma run_inserted_prefix:
  "prefix (inserted st) (inserted (run cfg evs st))"
proof (induction evs arbitrary: st)
  case Nil
  then show ?case by (simp add: run_def)
next
  case (Cons ev evs)
  have "prefix (inserted (handle cfg ev st)) (inserted (run cfg evs (handle cfg ev st)))"
    by (rule Cons.IH)
  with handle_inserted_prefix [of st cfg ev] show ?case
    by (simp add: run_def)
qed

lemma prefix_rowsOf:
  "prefix (inserted st) (inserted st') \<Longrightarrow> prefix (rowsOf table st) (rowsOf table st')"
  by (auto simp: prefix_def rowsOf_def)

text \<open>
  C9. The table of revisions is append-only: whatever event the process handles, the rows
  handed to the database before stay, in place and unchanged, and the only thing the
  pipeline does to a table is add a row at its end. A message created relevant and later
  edited into an irrelevant one keeps the revision of its creation.
\<close>

theorem revisions_append_only:
  "prefix (inserted st) (inserted (handle cfg ev st)) \<and>
   prefix (rowsOf ''Content'' st) (rowsOf ''Content'' (run cfg evs st)) \<and>
   (exited st = None \<and> \<not> (parse cfg \<and> oneshot cfg) \<and>
    isRelevant cfg (content m) \<and> \<not> isRelevant cfg (content m') \<longrightarrow>
      rowsOf ''Content'' (run cfg [MessageCreate m, MessageUpdate m m'] st) =
        rowsOf ''Content'' st @ [revisionRow m])"
proof -
  have 1: "prefix (inserted st) (inserted (handle cfg ev st))"
    by (rule handle_inserted_prefix)
  have 2: "prefix (rowsOf ''Content'' st) (rowsOf ''Content'' (run cfg evs st))"
    by (rule prefix_rowsOf [OF run_inserted_prefix])
  have 3: "exited st = None \<and> \<not> (parse cfg \<and> oneshot cfg) \<and>
    isRelevant cfg (content m) \<and> \<not> isRelevant cfg (content m') \<longrightarrow>
      rowsOf ''Content'' (run cfg [MessageCreate m, MessageUpdate m m'] st) =
        rowsOf ''Content'' st @ [revisionRow m]"
    by (simp add: run_def handle_def rowsOf_def processMessage_inserted processMessage_frame)
  from 1 2 3 show ?thesis by blast
qed

theorem revisions_append_only_witness:
  "exited started = None \<and> \<not> (parse exampleConfig \<and> oneshot exampleConfig) \<and>
   isRelevant exampleConfig (content aliceOriginal) \<and> \<not> isRelevant exampleConfig (content alicePlain) \<and>
   rowsOf ''Content'' (run exampleConfig [MessageCreate aliceOriginal, MessageUpdate aliceOriginal alicePlain] started) =
     [[Str ''check this out ```js\<newline>console.log(1)\<newline>```'', Num 1500000000000, Str ''1001'']]"
proof -
  have h: "exited started = None \<and> \<not> (parse exampleConfig \<and> oneshot exampleConfig) \<and>
    isRelevant exampleConfig (content aliceOriginal) \<and> \<not> isRelevant exampleConfig (content alicePlain)"
    using aliceOriginal_relevant alicePlain_irrelevant by (simp add: started_def exampleConfig_def)
  have r: "rowsOf ''Content'' started = []"
    by (simp add: rowsOf_def started_def)
  have v: "revisionRow aliceOriginal =
     [Str ''check this out ```js\<newline>console.log(1)\<newline>```'', Num 1500000000000, Str ''1001'']"
    by (simp add: revisionRow_def aliceOriginal_def getLatestTimestamp_def)
  from revisions_append_only [of started exampleConfig _ _ aliceOriginal alicePlain] h
  have "rowsOf ''Content'' (run exampleConfig [MessageCreate aliceOriginal, MessageUpdate aliceOriginal alicePlain] started) =
        rowsOf ''Content'' started @ [revisionRow aliceOriginal]"
    by blast
  with h r v show ?thesis by simp
qed

text \<open>
  C6. An edited version that is relevant gets one revision and no identity row, on the
  crawler's edit path and on a live update alike. When the original was not relevant and an
  edit is, the revision of the edit is stored and no identity row is: the table
  \<^verbatim>\<open>Message\<close> is as it was, so that the row refers to an identity that was never created.
\<close>

theorem edit_appends_revision_only:
  "(isRelevant cfg (content m) \<longrightarrow>
      inserted (processMessage cfg m True st) = inserted st @ [(''Content'', revisionRow m)]) \<and>
   (isRelevant cfg (content new) \<and> exited st = None \<and> \<not> (parse cfg \<and> oneshot cfg) \<longrightarrow>
      inserted (handle cfg (MessageUpdate old new) st) = inserted st @ [(''Content'', revisionRow new)]) \<and>
   (edits msg = [e, original] \<and> \<not> isRelevant cfg (content original) \<and> isRelevant cfg (content e) \<longrightarrow>
      (\<exists>st'. processMessageEdits cfg msg st = Inr st' \<and>
         inserted st' = inserted st @ [(''Content'', revisionRow e)] \<and>
         rowsOf ''Message'' st' = rowsOf ''Message'' st \<and>
         last (revisionRow e) = Str (msgId e)))"
proof -
  have 1: "isRelevant cfg (content m) \<longrightarrow>
      inserted (processMessage cfg m True st) = inserted st @ [(''Content'', revisionRow m)]"
    by (simp add: processMessage_inserted)
  have 2: "isRelevant cfg (content new) \<and> exited st = None \<and> \<not> (parse cfg \<and> oneshot cfg) \<longrightarrow>
      inserted (handle cfg (MessageUpdate old new) st) = inserted st @ [(''Content'', revisionRow new)]"
    by (simp add: handle_def processMessage_inserted)
  have 3: "edits msg = [e, original] \<and> \<not> isRelevant cfg (content original) \<and> isRelevant cfg (content e) \<longrightarrow>
      (\<exists>st'. processMessageEdits cfg msg st = Inr st' \<and>
         inserted st' = inserted st @ [(''Content'', revisionRow e)] \<and>
         rowsOf ''Message'' st' = rowsOf ''Message'' st \<and>
         last (revisionRow e) = Str (msgId e))"
    by (simp add: processMessageEdits_def processMessage_inserted rowsOf_def revisionRow_def)
  from 1 2 3 show ?thesis by blast
qed


theorem edit_appends_revision_only_witness:
  "isRelevant exampleConfig (content aliceEdited) \<and> exited started = None \<and>
   \<not> (parse exampleConfig \<and> oneshot exampleConfig) \<and>
   edits aliceLate = [aliceEdited, alicePlain] \<and> \<not> isRelevant exampleConfig (content alicePlain) \<and>
   inserted (processMessage exampleConfig aliceEdited True started) = [(''Content'', revisionRow aliceEdited)] \<and>
   inserted (handle exampleConfig (MessageUpdate aliceOriginal aliceEdited) started) =
     [(''Content'', revisionRow aliceEdited)] \<and>
   (\<exists>st'. processMessageEdits exampleConfig aliceLate started = Inr st' \<and>
      inserted st' = [(''Content'', revisionRow aliceEdited)] \<and> rowsOf ''Message'' st' = [])"
proof -
  have h: "isRelevant exampleConfig (content aliceEdited) \<and> exited started = None \<and>
    \<not> (parse exampleConfig \<and> oneshot exampleConfig) \<and>
    edits aliceLate = [aliceEdited, alicePlain] \<and> \<not> isRelevant exampleConfig (content alicePlain)"
    using aliceEdited_relevant alicePlain_irrelevant
    by (simp add: started_def exampleConfig_def aliceLate_def)
  have s: "inserted started = []" "rowsOf ''Message'' started = []"
    by (simp_all add: started_def rowsOf_def)
  from edit_appends_revision_only [of exampleConfig aliceEdited started aliceEdited aliceOriginal
      aliceLate aliceEdited alicePlain] h s
  show ?thesis by auto
qed


subsection \<open>The crawl of a channel\<close>

lemma stalled_handle:
  assumes "stalled ch st" "\<not> isReady ev"
  shows "stalled ch (handle cfg ev st)"
proof (cases ev)
  case (Ready tag guilds)
  with assms show ?thesis by (simp add: isReady_def)
next
  case (MessageCreate m)
  with assms show ?thesis by (simp add: stalled_def handle_def processMessage_frame)
next
  case (MessageUpdate old new)
  with assms show ?thesis by (simp add: stalled_def handle_def processMessage_frame)
next
  case (FetchResolved c ms)
  with assms show ?thesis by (simp add: stalled_def handle_def)
next
  case (FetchRejected c e)
  with assms show ?thesis by (simp add: stalled_def handle_def)
next
  case (InsertFailed e)
  with assms show ?thesis by (simp add: stalled_def handle_def)
qed

lemma stalled_run:
  "stalled ch st \<Longrightarrow> list_all (\<lambda>ev. \<not> isReady ev) evs \<Longrightarrow> stalled ch (run cfg evs st)"
proof (induction evs arbitrary: st)
  case Nil
  then show ?case by (simp add: run_def)
next
  case (Cons ev evs)
  then have "stalled ch (handle cfg ev st)" by (simp add: stalled_handle)
  from Cons.IH [OF this] Cons.prems(2) show ?case by (simp add: run_def)
qed

lemma rejected_first_page:
  assumes "parse cfg" "chanType ch = ''text''"
  shows "stalled ch (run cfg [Ready tag [[ch]], FetchRejected ch e] started) \<and>
         Err e \<in> set (console (run cfg [Ready tag [[ch]], FetchRejected ch e] started))"
  using assms by (simp add: run_def handle_def stalled_def started_def Let_def)

text \<open>
  C7. A page request that fails is logged and nothing else happens: no request is sent
  again, the channel has no request in flight any more, and the counter of channels to scan
  is not decremented. With one channel to scan whose first request fails, the counter stays
  at one and the process never exits, whatever messages, answers and database errors follow.
\<close>

theorem fetch_failure_abandons_channel:
  "(exited st = None \<and> ch \<in> set (pending st) \<longrightarrow>
      handle cfg (FetchRejected ch e) st =
        st\<lparr>console := console st @ [Err e], pending := remove1 ch (pending st)\<rparr>) \<and>
   (parse cfg \<and> chanType ch = ''text'' \<and> list_all (\<lambda>ev. \<not> isReady ev) evs \<longrightarrow>
      channelsRemaining (run cfg ([Ready tag [[ch]], FetchRejected ch e] @ evs) started) = 1 \<and>
      exited (run cfg ([Ready tag [[ch]], FetchRejected ch e] @ evs) started) = None \<and>
      fetchCalls (run cfg ([Ready tag [[ch]], FetchRejected ch e] @ evs) started) = [(ch, limit, None)] \<and>
      pending (run cfg ([Ready tag [[ch]], FetchRejected ch e] @ evs) started) = [] \<and>
      Err e \<in> set (console (run cfg [Ready tag [[ch]], FetchRejected ch e] started)))"
proof -
  have 1: "exited st = None \<and> ch \<in> set (pending st) \<longrightarrow>
      handle cfg (FetchRejected ch e) st =
        st\<lparr>console := console st @ [Err e], pending := remove1 ch (pending st)\<rparr>"
    by (simp add: handle_def logError_def)
  have 2: "channelsRemaining (run cfg ([Ready tag [[ch]], FetchRejected ch e] @ evs) started) = 1 \<and>
      exited (run cfg ([Ready tag [[ch]], FetchRejected ch e] @ evs) started) = None \<and>
      fetchCalls (run cfg ([Ready tag [[ch]], FetchRejected ch e] @ evs) started) = [(ch, limit, None)] \<and>
      pending (run cfg ([Ready tag [[ch]], FetchRejected ch e] @ evs) started) = [] \<and>
      Err e \<in> set (console (run cfg [Ready tag [[ch]], FetchRejected ch e] started))"
    if h: "parse cfg" "chanType ch = ''text''" "list_all (\<lambda>ev. \<not> isReady ev) evs"
  proof -
    from rejected_first_page [OF h(1,2), of tag e]
    have s: "stalled ch (run cfg [Ready tag [[ch]], FetchRejected ch e] started)"
      and c: "Err e \<in> set (console (run cfg [Ready tag [[ch]], FetchRejected ch e] started))"
      by simp_all
    have "run cfg ([Ready tag [[ch]], FetchRejected ch e] @ evs) started =
          run cfg evs (run cfg [Ready tag [[ch]], FetchRejected ch e] started)"
      by (simp add: run_def)
    with stalled_run [OF s h(3), of cfg] c show ?thesis
      by (simp add: stalled_def)
  qed
  from 1 2 show ?thesis by blast
qed

theorem fetch_failure_abandons_channel_witness:
  "parse crawlConfig \<and> chanType general = ''text'' \<and>
   list_all (\<lambda>ev. \<not> isReady ev) [MessageCreate aliceOriginal, FetchResolved general [], InsertFailed ''disk''] \<and>
   exited (handle crawlConfig (Ready ''bot#0000'' [[general]]) started) = None \<and>
   general \<in> set (pending (handle crawlConfig (Ready ''bot#0000'' [[general]]) started)) \<and>
   channelsRemaining (run crawlConfig ([Ready ''bot#0000'' [[general]], FetchRejected general ''timeout''] @
      [MessageCreate aliceOriginal, FetchResolved general [], InsertFailed ''disk'']) started) = 1 \<and>
   exited (run crawlConfig ([Ready ''bot#0000'' [[general]], FetchRejected general ''timeout''] @
      [MessageCreate aliceOriginal, FetchResolved general [], InsertFailed ''disk'']) started) = None \<and>
   pending (handle crawlConfig (FetchRejected general ''timeout'')
      (handle crawlConfig (Ready ''bot#0000'' [[general]]) started)) = []"
proof -
  have h: "parse crawlConfig \<and> chanType general = ''text'' \<and>
    list_all (\<lambda>ev. \<not> isReady ev) [MessageCreate aliceOriginal, FetchResolved general [], InsertFailed ''disk'']"
    by (simp add: crawlConfig_def general_def isReady_def)
  have p: "exited (handle crawlConfig (Ready ''bot#0000'' [[general]]) started) = None \<and>
    general \<in> set (pending (handle crawlConfig (Ready ''bot#0000'' [[general]]) started))"
    by (simp add: handle_def started_def crawlConfig_def general_def Let_def)
  have q: "pending (handle crawlConfig (Ready ''bot#0000'' [[general]]) started) = [general]"
    by (simp add: handle_def started_def crawlConfig_def general_def Let_def)
  from fetch_failure_abandons_channel [of "handle crawlConfig (Ready ''bot#0000'' [[general]]) started"
      general crawlConfig "''timeout''"
      "[MessageCreate aliceOriginal, FetchResolved general [], InsertFailed ''disk'']" "''bot#0000''"] h p q
  show ?thesis by simp
qed

lemma fetched_ok:
  assumes "\<forall>m\<in>set page. edits m \<noteq> []"
  shows "\<exists>st1. fetched cfg ch page st =
           (if length page = limit then fetch ch (Some (msgId (last page))) st1 else finished cfg ch st1) \<and>
           console st1 = console st \<and> channelsRemaining st1 = channelsRemaining st \<and>
           fetchCalls st1 = fetchCalls st \<and> pending st1 = pending st \<and> exited st1 = exited st"
proof -
  from forEachMessage_ok [OF assms, of cfg st] obtain st1 where
    f: "forEachMessage cfg page st = (st1, None)"
    by blast
  from forEachMessage_prefix [OF f] f
  have "fetched cfg ch page st =
           (if length page = limit then fetch ch (Some (msgId (last page))) st1 else finished cfg ch st1) \<and>
           console st1 = console st \<and> channelsRemaining st1 = channelsRemaining st \<and>
           fetchCalls st1 = fetchCalls st \<and> pending st1 = pending st \<and> exited st1 = exited st"
    by (simp add: fetched_def)
  then show ?thesis ..
qed

text \<open>
  C3. Every request asks for at most 100 messages. When the page that comes back has exactly
  100 messages (each with its edit history, as the chat library delivers them), the crawler
  sends the next request, with the id of the last message of the page as cursor, and the
  channel is not finished; with any other number of messages no request is sent, the end of
  the channel is logged and the counter of channels is decremented. A channel that answers
  with a page of 100 messages and then with an empty page gets two requests, and is finished
  after the second answer.
\<close>

theorem pagination:
  assumes "\<forall>m\<in>set page. edits m \<noteq> []"
  shows "(length page = limit \<longrightarrow>
            fetchCalls (fetched cfg ch page st) = fetchCalls st @ [(ch, 100, Some (msgId (last page)))] \<and>
            pending (fetched cfg ch page st) = pending st @ [ch] \<and>
            channelsRemaining (fetched cfg ch page st) = channelsRemaining st \<and>
            console (fetched cfg ch page st) = console st) \<and>
         (length page \<noteq> limit \<longrightarrow>
            fetchCalls (fetched cfg ch page st) = fetchCalls st \<and>
            pending (fetched cfg ch page st) = pending st \<and>
            channelsRemaining (fetched cfg ch page st) = channelsRemaining st - 1 \<and>
            Log (''Finished scanning channel #'' @ chanName ch @ ''!'') \<in> set (console (fetched cfg ch page st))) \<and>
         (length page = limit \<and> parse cfg \<and> chanType ch = ''text'' \<longrightarrow>
            fetchCalls (run cfg [Ready tag [[ch]]] started) = [(ch, 100, None)] \<and>
            fetchCalls (run cfg [Ready tag [[ch]], FetchResolved ch page] started) =
              [(ch, 100, None), (ch, 100, Some (msgId (last page)))] \<and>
            channelsRemaining (run cfg [Ready tag [[ch]], FetchResolved ch page] started) = 1 \<and>
            Log (''Finished scanning channel #'' @ chanName ch @ ''!'') \<notin>
              set (console (run cfg [Ready tag [[ch]], FetchResolved ch page] started)) \<and>
            fetchCalls (run cfg [Ready tag [[ch]], FetchResolved ch page, FetchResolved ch []] started) =
              [(ch, 100, None), (ch, 100, Some (msgId (last page)))] \<and>
            pending (run cfg [Ready tag [[ch]], FetchResolved ch page, FetchResolved ch []] started) = [] \<and>
            channelsRemaining (run cfg [Ready tag [[ch]], FetchResolved ch page, FetchResolved ch []] started) = 0 \<and>
            Log (''Finished scanning channel #'' @ chanName ch @ ''!'') \<in>
              set (console (run cfg [Ready tag [[ch]], FetchResolved ch page, FetchResolved ch []] started)))"
proof -
  from fetched_ok [OF assms, of cfg ch st] obtain st1 where
    f: "fetched cfg ch page st =
           (if length page = limit then fetch ch (Some (msgId (last page))) st1 else finished cfg ch st1)"
    and k: "console st1 = console st" "channelsRemaining st1 = channelsRemaining st"
       "fetchCalls st1 = fetchCalls st" "pending st1 = pending st" "exited st1 = exited st"
    by blast
  have 1: "length page = limit \<longrightarrow>
            fetchCalls (fetched cfg ch page st) = fetchCalls st @ [(ch, 100, Some (msgId (last page)))] \<and>
            pending (fetched cfg ch page st) = pending st @ [ch] \<and>
            channelsRemaining (fetched cfg ch page st) = channelsRemaining st \<and>
            console (fetched cfg ch page st) = console st"
    using f k by (simp add: limit_def)
  have 2: "length page \<noteq> limit \<longrightarrow>
            fetchCalls (fetched cfg ch page st) = fetchCalls st \<and>
            pending (fetched cfg ch page st) = pending st \<and>
            channelsRemaining (fetched cfg ch page st) = channelsRemaining st - 1 \<and>
            Log (''Finished scanning channel #'' @ chanName ch @ ''!'') \<in> set (console (fetched cfg ch page st))"
    using f k by (simp add: finished_console)
  have 3: "fetchCalls (run cfg [Ready tag [[ch]]] started) = [(ch, 100, None)] \<and>
            fetchCalls (run cfg [Ready tag [[ch]], FetchResolved ch page] started) =
              [(ch, 100, None), (ch, 100, Some (msgId (last page)))] \<and>
            channelsRemaining (run cfg [Ready tag [[ch]], FetchResolved ch page] started) = 1 \<and>
            Log (''Finished scanning channel #'' @ chanName ch @ ''!'') \<notin>
              set (console (run cfg [Ready tag [[ch]], FetchResolved ch page] started)) \<and>
            fetchCalls (run cfg [Ready tag [[ch]], FetchResolved ch page, FetchResolved ch []] started) =
              [(ch, 100, None), (ch, 100, Some (msgId (last page)))] \<and>
            pending (run cfg [Ready tag [[ch]], FetchResolved ch page, FetchResolved ch []] started) = [] \<and>
            channelsRemaining (run cfg [Ready tag [[ch]], FetchResolved ch page, FetchResolved ch []] started) = 0 \<and>
            Log (''Finished scanning channel #'' @ chanName ch @ ''!'') \<in>
              set (console (run cfg [Ready tag [[ch]], FetchResolved ch page, FetchResolved ch []] started))"
    if h: "length page = limit" "parse cfg" "chanType ch = ''text''"
  proof -
    define st1 where "st1 = handle cfg (Ready tag [[ch]]) started"
    define st1' where "st1' = st1\<lparr>pending := remove1 ch (pending st1)\<rparr>"
    define st2 where "st2 = fetched cfg ch page st1'"
    define st2' where "st2' = st2\<lparr>pending := remove1 ch (pending st2)\<rparr>"
    define st3 where "st3 = fetched cfg ch [] st2'"
    have a1: "fetchCalls st1 = [(ch, 100, None)]" "pending st1 = [ch]" "channelsRemaining st1 = 1"
      "exited st1 = None"
      "console st1 = [Log (''Logged in as '' @ tag @ ''!''), Log ''Preparing to scan chat history...'',
         Log (''Scanning channel #'' @ chanName ch @ ''...'')]"
      using h by (simp_all add: st1_def handle_def started_def Let_def limit_def scanHistory_def)
    from fetched_ok [OF assms, of cfg ch st1'] obtain s where
      "st2 = (if length page = limit then fetch ch (Some (msgId (last page))) s else finished cfg ch s)"
      "console s = console st1'" "channelsRemaining s = channelsRemaining st1'"
      "fetchCalls s = fetchCalls st1'" "pending s = pending st1'" "exited s = exited st1'"
      unfolding st2_def by blast
    with h a1 have a2: "fetchCalls st2 = [(ch, 100, None), (ch, 100, Some (msgId (last page)))]"
      "pending st2 = [ch]" "channelsRemaining st2 = 1" "exited st2 = None" "console st2 = console st1"
      by (simp_all add: st1'_def limit_def)
    have a3: "fetchCalls st3 = fetchCalls st2" "pending st3 = []" "channelsRemaining st3 = 0"
      "Log (''Finished scanning channel #'' @ chanName ch @ ''!'') \<in> set (console st3)"
      using a2 by (simp_all add: st3_def st2'_def fetched_def limit_def finished_console)
    have r1: "run cfg [Ready tag [[ch]]] started = st1"
      by (simp add: run_def st1_def)
    have h2: "handle cfg (FetchResolved ch page) st1 = st2"
      using a1 by (simp add: handle_def st2_def st1'_def)
    have h3: "handle cfg (FetchResolved ch []) st2 = st3"
      using a2 by (simp add: handle_def st3_def st2'_def)
    have r2: "run cfg [Ready tag [[ch]], FetchResolved ch page] started = st2"
      using h2 by (simp add: run_def st1_def)
    have r3: "run cfg [Ready tag [[ch]], FetchResolved ch page, FetchResolved ch []] started = st3"
      using h2 h3 by (simp add: run_def st1_def)
    show ?thesis
      unfolding r1 r2 r3 using a1 a2 a3 by simp
  qed
  from 1 2 3 show ?thesis by blast
qed

theorem pagination_witness:
  "list_all (\<lambda>m. edits m \<noteq> []) (replicate 100 aliceThree) \<and>
   length (replicate 100 aliceThree) = limit \<and> parse crawlConfig \<and> chanType general = ''text'' \<and>
   length ([] :: message list) \<noteq> limit \<and>
   fetchCalls (fetched crawlConfig general (replicate 100 aliceThree) started) =
     [(general, 100, Some ''1001'')] \<and>
   fetchCalls (fetched crawlConfig general [] started) = [] \<and>
   channelsRemaining (fetched crawlConfig general [] started) = - 1 \<and>
   fetchCalls (run crawlConfig [Ready ''bot#0000'' [[general]], FetchResolved general (replicate 100 aliceThree),
       FetchResolved general []] started) =
     [(general, 100, None), (general, 100, Some ''1001'')] \<and>
   channelsRemaining (run crawlConfig [Ready ''bot#0000'' [[general]], FetchResolved general (replicate 100 aliceThree),
       FetchResolved general []] started) = 0"
proof -
  have a: "\<forall>m\<in>set (replicate 100 aliceThree). edits m \<noteq> []"
    by (simp add: aliceThree_def)
  have b: "\<forall>m\<in>set ([] :: message list). edits m \<noteq> []"
    by simp
  have h: "length (replicate 100 aliceThree) = limit \<and> parse crawlConfig \<and> chanType general = ''text'' \<and>
    length ([] :: message list) \<noteq> limit"
    by (simp add: limit_def crawlConfig_def general_def)
  have l: "msgId (last (replicate 100 aliceThree)) = ''1001''"
    by (simp add: aliceThree_def)
  have s: "fetchCalls started = []" "channelsRemaining started = 0"
    by (simp_all add: started_def)
  have c: "list_all (\<lambda>m. edits m \<noteq> []) (replicate 100 aliceThree)"
    using a by (simp add: list_all_iff)
  from pagination [OF a, of crawlConfig general started "''bot#0000''"]
    pagination [OF b, of crawlConfig general started "''bot#0000''"] h l s c
  show ?thesis by simp
qed

subsection \<open>Code blocks\<close>

lemma orElse_simps [simp]:
  "orElse None b = b" "orElse (Some x) b = Some x" "orElse a None = a"
  by (simp_all add: orElse_def split: option.splits)

lemma lit_Cons [simp]:
  "lit [] k s = k s"
  "lit (c # w) k [] = None"
  "lit (c # w) k (x # s) = (if c = x then lit w k s else None)"
  by (simp_all add: lit_def)

lemma not_nl_fence [simp]: "\<not> prefix fence (nl # s)" "\<not> isNl (CHR 0x60)" "\<not> lower nl" "\<not> lower (CHR 0x60)"
  by (simp_all add: fence_def nl_def isNl_def lower_def)

lemma length_fence [simp]: "length fence = 3"
  by (simp add: fence_def)

lemma splitFence_SomeD: "splitFence s = Some (body, rest) \<Longrightarrow> s = body @ fence @ rest"
proof (induction s arbitrary: body)
  case Nil
  then show ?case by simp
next
  case (Cons c cs)
  show ?case
  proof (cases "prefix fence (c # cs)")
    case True
    then obtain r where "c # cs = fence @ r" by (auto simp: prefix_def)
    with Cons.prems True show ?thesis by (simp add: fence_def)
  next
    case False
    with Cons.prems obtain b where "splitFence cs = Some (b, rest)" "body = c # b"
      by (auto split: prod.splits)
    with Cons.IH [of b] show ?thesis by simp
  qed
qed

lemma splitFence_append:
  "CHR 0x60 \<notin> set a \<Longrightarrow> splitFence (a @ t) = map_option (\<lambda>(body, rest). (a @ body, rest)) (splitFence t)"
proof (induction a)
  case Nil
  then show ?case by (simp add: option.map_ident split_def)
next
  case (Cons c a)
  then have "\<not> prefix fence (c # a @ t)" by (auto simp: fence_def)
  with Cons show ?case
    by (simp add: option.map_comp comp_def split_def)
qed

lemma splitFence_fence: "splitFence (fence @ r) = Some ([], r)"
  by (simp add: fence_def)

lemma splitFence_complete: "splitFence (a @ fence @ r) \<noteq> None"
proof (induction a)
  case Nil
  then show ?case by (simp add: splitFence_fence)
next
  case (Cons c a)
  then show ?case by auto
qed

lemma splitFence_None_iff: "splitFence s \<noteq> None \<longleftrightarrow> (\<exists>a r. s = a @ fence @ r)"
proof
  assume "splitFence s \<noteq> None"
  then obtain b r where "splitFence s = Some (b, r)" by auto
  from splitFence_SomeD [OF this] show "\<exists>a r. s = a @ fence @ r" by blast
next
  assume "\<exists>a r. s = a @ fence @ r"
  then show "splitFence s \<noteq> None" using splitFence_complete by blast
qed


lemma rstripNl_Cons:
  "rstripNl (c # x) = (if isNl c \<and> list_all isNl x then [] else c # rstripNl x)"
proof (cases "list_all isNl x")
  case True
  then have "dropWhile isNl (rev x @ [c]) = dropWhile isNl [c]"
    by (intro dropWhile_append2) (simp add: list_all_iff)
  moreover have "dropWhile isNl (rev x) = []"
    using True by (simp add: list_all_iff)
  ultimately show ?thesis using True by (simp add: rstripNl_def)
next
  case False
  then obtain y where "y \<in> set (rev x)" "\<not> isNl y" by (auto simp: list_all_iff)
  then have "dropWhile isNl (rev x @ [c]) = dropWhile isNl (rev x) @ [c]"
    by (rule dropWhile_append1)
  with False show ?thesis by (simp add: rstripNl_def)
qed

lemma splitFence_nls:
  assumes "splitFence s = Some (body, rest)" "list_all isNl body"
  shows "prefix fence (dropWhile isNl s) \<and> drop 3 (dropWhile isNl s) = rest"
proof -
  from splitFence_SomeD [OF assms(1)] have s: "s = body @ fence @ rest" .
  have "dropWhile isNl (body @ fence @ rest) = dropWhile isNl (fence @ rest)"
    using assms(2) by (intro dropWhile_append2) (simp add: list_all_iff)
  then show ?thesis by (simp add: s fence_def)
qed

lemma closing:
  "greedy isNl (\<lambda>_ s3. lit fence (\<lambda>s4. Some (f s4)) s3) acc s =
     (if prefix fence (dropWhile isNl s) then Some (f (drop 3 (dropWhile isNl s))) else None)"
proof (induction s arbitrary: acc)
  case Nil
  then show ?case by (simp add: fence_def)
next
  case (Cons c cs)
  show ?case
  proof (cases "isNl c")
    case True
    then have "lit fence (\<lambda>s4. Some (f s4)) (c # cs) = None"
      by (simp add: fence_def isNl_def nl_def)
    with True Cons.IH [of "acc @ [c]"] show ?thesis by simp
  next
    case False
    then show ?thesis by (simp add: lit_def)
  qed
qed

lemma closing_splitFence:
  assumes "prefix fence (dropWhile isNl s)"
  shows "splitFence s = Some (takeWhile isNl s, drop 3 (dropWhile isNl s))"
proof -
  have s: "s = takeWhile isNl s @ dropWhile isNl s" by simp
  from assms obtain r where r: "dropWhile isNl s = fence @ r" by (auto simp: prefix_def)
  have "CHR 0x60 \<notin> set (takeWhile isNl s)"
    by (auto dest: set_takeWhileD)
  from splitFence_append [OF this, of "dropWhile isNl s"]
  have "splitFence s = map_option (\<lambda>(body, rest). (takeWhile isNl s @ body, rest)) (splitFence (fence @ r))"
    by (simp add: r [symmetric])
  then show ?thesis by (simp add: splitFence_fence r fence_def)
qed

lemma body:
  "lazy anyChar (\<lambda>code s2. greedy isNl (\<lambda>_ s3. lit fence (\<lambda>s4. Some ((lang, code), s4)) s3) [] s2) acc s =
     (case splitFence s of
        None \<Rightarrow> None
      | Some (x, rest) \<Rightarrow> Some ((lang, acc @ rstripNl x), rest))"
proof -
  define K where "K = (\<lambda>code s2. greedy isNl (\<lambda>_ s3. lit fence (\<lambda>s4. Some ((lang, code :: string), s4)) s3) [] s2)"
  have K: "K code s2 =
     (if prefix fence (dropWhile isNl s2) then Some ((lang, code), drop 3 (dropWhile isNl s2)) else None)"
    for code s2
    unfolding K_def by (rule closing)
  have "lazy anyChar K acc s =
     (case splitFence s of None \<Rightarrow> None | Some (x, rest) \<Rightarrow> Some ((lang, acc @ rstripNl x), rest))"
  proof (induction s arbitrary: acc)
    case Nil
    then show ?case by (simp add: K fence_def)
  next
    case (Cons c cs)
    have step: "lazy anyChar K acc (c # cs) = orElse (K acc (c # cs)) (lazy anyChar K (acc @ [c]) cs)"
      by (simp add: anyChar_def)
    show ?case
    proof (cases "prefix fence (dropWhile isNl (c # cs))")
      case True
      from closing_splitFence [OF True]
      have "splitFence (c # cs) = Some (takeWhile isNl (c # cs), drop 3 (dropWhile isNl (c # cs)))" .
      moreover have "rstripNl (takeWhile isNl (c # cs)) = []"
        by (simp add: rstripNl_def) (metis set_takeWhileD)
      moreover have "K acc (c # cs) = Some ((lang, acc), drop 3 (dropWhile isNl (c # cs)))"
        using True by (simp only: K if_True)
      ultimately show ?thesis
        by (simp only: step orElse_simps option.case prod.case append_Nil2)
    next
      case False
      then have nf: "\<not> prefix fence (c # cs)"
        by (cases "isNl c") (auto simp: isNl_def)
      have kf: "K acc (c # cs) = None"
        using False by (simp only: K if_False)
      have l: "lazy anyChar K acc (c # cs) = lazy anyChar K (acc @ [c]) cs"
        by (simp only: step kf orElse_simps)
      show ?thesis
      proof (cases "splitFence cs")
        case None
        with nf show ?thesis
          by (simp add: l Cons.IH del: lazy.simps)
      next
        case (Some p)
        obtain x rest where p: "p = (x, rest)" by (cases p)
        have "\<not> (isNl c \<and> list_all isNl x)"
        proof
          assume a: "isNl c \<and> list_all isNl x"
          have "splitFence (c # cs) = Some (c # x, rest)"
            using nf Some p by simp
          from splitFence_nls [OF this] a False show False by simp
        qed
        then have "rstripNl (c # x) = c # rstripNl x"
          by (simp add: rstripNl_Cons)
        with nf Some p show ?thesis
          by (simp add: l Cons.IH del: lazy.simps)
      qed
    qed
  qed
  then show ?thesis by (simp only: K_def)
qed

lemma nls_back:
  assumes "\<And>t. F t = None \<Longrightarrow> F (nl # t) = None"
  shows "F (dropWhile isNl s) = None \<Longrightarrow> F s = None"
proof (induction s)
  case Nil
  then show ?case by simp
next
  case (Cons c cs)
  show ?case
  proof (cases "isNl c")
    case True
    with Cons have "F cs = None" by simp
    from assms [OF this] True show ?thesis by (simp add: isNl_def)
  next
    case False
    with Cons.prems show ?thesis by simp
  qed
qed

lemma leading:
  assumes "\<And>t. F t = None \<Longrightarrow> F (nl # t) = None"
  shows "greedy isNl (\<lambda>_ s1. F s1) acc s = F (dropWhile isNl s)"
proof (induction s arbitrary: acc)
  case Nil
  then show ?case by simp
next
  case (Cons c cs)
  show ?case
  proof (cases "isNl c")
    case True
    show ?thesis
    proof (cases "F (dropWhile isNl cs)")
      case None
      from nls_back [of F, OF assms None] have "F cs = None" .
      from assms [OF this] have "F (c # cs) = None" using True by (simp add: isNl_def)
      with True None Cons.IH [of "acc @ [c]"] show ?thesis by simp
    next
      case (Some y)
      with True Cons.IH [of "acc @ [c]"] show ?thesis by simp
    qed
  next
    case False
    then show ?thesis by simp
  qed
qed

lemma splitFence_nl: "splitFence (nl # t) = map_option (\<lambda>(body, rest). (nl # body, rest)) (splitFence t)"
  by simp

lemma codeTail_eq:
  "codeTail lang s =
     (case splitFence (dropWhile isNl s) of
        None \<Rightarrow> None
      | Some (x, rest) \<Rightarrow> Some ((lang, rstripNl x), rest))"
proof -
  define F where "F = (\<lambda>s1. case splitFence s1 of
        None \<Rightarrow> None
      | Some (x, rest) \<Rightarrow> Some ((lang, rstripNl x), rest))"
  have b: "lazy anyChar (\<lambda>code s2. greedy isNl (\<lambda>_ s3. lit fence (\<lambda>s4. Some ((lang, code), s4)) s3) [] s2) [] s1 = F s1"
    for s1
    unfolding F_def by (simp only: body append_Nil)
  have "F t = None \<Longrightarrow> F (nl # t) = None" for t
    by (cases "splitFence t") (auto simp: F_def split: prod.splits)
  from leading [of F, OF this] have "greedy isNl (\<lambda>_ s1. F s1) [] s = F (dropWhile isNl s)" .
  then show ?thesis
    unfolding codeTail_def b by (simp add: F_def)
qed

lemma splitFence_dropWhile:
  "splitFence t = map_option (\<lambda>(x, rest). (takeWhile isNl t @ x, rest)) (splitFence (dropWhile isNl t))"
proof -
  have "CHR 0x60 \<notin> set (takeWhile isNl t)"
    by (auto dest: set_takeWhileD)
  from splitFence_append [OF this, of "dropWhile isNl t"] show ?thesis by simp
qed

lemma codeTail_spec:
  "codeTail lang t =
     (case splitFence t of
        None \<Rightarrow> None
      | Some (body, rest) \<Rightarrow> Some ((lang, trimNl body), rest))"
proof (cases "splitFence (dropWhile isNl t)")
  case None
  then show ?thesis
    by (simp add: codeTail_eq splitFence_dropWhile [of t])
next
  case (Some p)
  obtain x rest where p: "p = (x, rest)" by (cases p)
  from splitFence_SomeD [of "dropWhile isNl t" x rest] Some p
  have d: "dropWhile isNl t = x @ fence @ rest" by simp
  have "dropWhile isNl x = x"
  proof (cases x)
    case Nil
    then show ?thesis by simp
  next
    case (Cons c x')
    with d have "hd (dropWhile isNl t) = c" "dropWhile isNl t \<noteq> []" by simp_all
    with hd_dropWhile [of isNl t] have "\<not> isNl c" by auto
    with Cons show ?thesis by simp
  qed
  moreover have "dropWhile isNl (takeWhile isNl t @ x) = dropWhile isNl x"
    by (intro dropWhile_append2) (auto dest: set_takeWhileD)
  ultimately have "trimNl (takeWhile isNl t @ x) = rstripNl x"
    by (simp add: trimNl_def rstripNl_def)
  with Some p show ?thesis
    by (simp add: codeTail_eq splitFence_dropWhile [of t])
qed

lemma tag_run:
  assumes "\<And>a t c. lower c \<Longrightarrow> K a (c # t) = None"
  shows "greedy lower K acc s = K (acc @ takeWhile lower s) (dropWhile lower s)"
proof (induction s arbitrary: acc)
  case Nil
  then show ?case by simp
next
  case (Cons c cs)
  show ?case
  proof (cases "lower c")
    case True
    from assms [OF True] have "K acc (c # cs) = None" .
    with True Cons.IH [of "acc @ [c]"] show ?thesis by simp
  next
    case False
    then show ?thesis by simp
  qed
qed

lemma tag_run1:
  assumes "\<And>a t c. lower c \<Longrightarrow> K a (c # t) = None"
  shows "greedy1 lower K s =
           (if takeWhile lower s \<noteq> [] then K (takeWhile lower s) (dropWhile lower s) else None)"
proof (cases s)
  case Nil
  then show ?thesis by (simp add: greedy1_def)
next
  case (Cons c cs)
  from tag_run [of K "[c]" cs, OF assms] Cons show ?thesis
    by (simp add: greedy1_def)
qed

text \<open>
  The regular expression of the code blocks reads a text as \<open>fencedBlock\<close> does: an opening
  fence, the language tag when one is there, the body up to the nearest closing fence, and
  as code the body without the newlines at its two ends.
\<close>

lemma codeMatch_fencedBlock: "codeMatch s = fencedBlock s"
proof (cases "prefix fence s")
  case False
  then show ?thesis by (simp add: codeMatch_def fencedBlock_def lit_def)
next
  case True
  define s1 where "s1 = drop 3 s"
  define K where "K = (\<lambda>l s2. lit [nl] (codeTail (Some l)) s2)"
  have K0: "K a (c # t) = None" if "lower c" for a t c
    using that by (auto simp: K_def)
  have g: "greedy1 lower K s1 =
           (if takeWhile lower s1 \<noteq> [] then K (takeWhile lower s1) (dropWhile lower s1) else None)"
    by (rule tag_run1) (rule K0)
  have m: "codeMatch s = orElse (greedy1 lower K s1) (codeTail None s1)"
    using True by (simp add: codeMatch_def lit_def s1_def K_def)
  have f: "fencedBlock s =
      (case langTag s1 of
              (lang, t) \<Rightarrow>
                (case splitFence t of
                   None \<Rightarrow> None
                 | Some (body, rest) \<Rightarrow> Some ((lang, trimNl body), rest)))"
    using True by (simp add: fencedBlock_def s1_def)
  show ?thesis
  proof (cases "\<exists>t. dropWhile lower s1 = nl # t \<and> takeWhile lower s1 \<noteq> []")
    case True
    then obtain t where t: "dropWhile lower s1 = nl # t" and l: "takeWhile lower s1 \<noteq> []"
      by blast
    have lt: "langTag s1 = (Some (takeWhile lower s1), t)"
      using t l by (simp add: langTag_def)
    have a: "greedy1 lower K s1 = codeTail (Some (takeWhile lower s1)) t"
      using t l unfolding g by (simp add: K_def)
    show ?thesis
    proof (cases "splitFence t")
      case None
      have "CHR 0x60 \<notin> set (takeWhile lower s1 @ [nl])"
        by (auto dest: set_takeWhileD simp: nl_def)
      from splitFence_append [OF this, of t] None
      have "splitFence ((takeWhile lower s1 @ [nl]) @ t) = None" by simp
      moreover have "(takeWhile lower s1 @ [nl]) @ t = s1"
        using t takeWhile_dropWhile_id [of lower s1] by simp
      ultimately have "splitFence s1 = None" by simp
      with None show ?thesis
        by (simp add: m f lt a codeTail_spec)
    next
      case (Some p)
      then show ?thesis
        by (simp add: m f lt a codeTail_spec split: prod.splits)
    qed
  next
    case False
    then have lt: "langTag s1 = (None, s1)"
      by (auto simp: langTag_def split: list.splits)
    have "greedy1 lower K s1 = None"
    proof (cases "takeWhile lower s1 = []")
      case True
      then show ?thesis by (simp add: g)
    next
      case n: False
      show ?thesis
      proof (cases "dropWhile lower s1")
        case Nil
        show ?thesis unfolding g Nil using n by (simp add: K_def)
      next
        case (Cons c t)
        with False n have "c \<noteq> nl" by auto
        then show ?thesis unfolding g Cons using n by (simp add: K_def)
      qed
    qed
    then show ?thesis
      by (simp add: m f lt codeTail_spec)
  qed
qed

lemma langTag_cases:
  assumes "langTag s = (lang, t)"
  shows "(lang = None \<and> t = s) \<or>
         (\<exists>l. lang = Some l \<and> l \<noteq> [] \<and> (\<forall>c\<in>set l. lower c) \<and> s = l @ nl # t)"
proof (cases "\<exists>r. dropWhile lower s = nl # r \<and> takeWhile lower s \<noteq> []")
  case True
  then obtain r where r: "dropWhile lower s = nl # r" and l: "takeWhile lower s \<noteq> []" by blast
  with assms have "lang = Some (takeWhile lower s)" "t = r"
    by (simp_all add: langTag_def)
  moreover have "s = takeWhile lower s @ nl # r"
    using r takeWhile_dropWhile_id [of lower s] by simp
  moreover have "\<forall>c\<in>set (takeWhile lower s). lower c"
    by (auto dest: set_takeWhileD)
  ultimately show ?thesis using l by blast
next
  case False
  with assms have "lang = None \<and> t = s"
    by (auto simp: langTag_def split: list.splits if_splits)
  then show ?thesis by blast
qed

lemma langTag_lower:
  assumes "l \<noteq> []" "\<forall>c\<in>set l. lower c"
  shows "langTag (l @ nl # t) = (Some l, t)"
proof -
  have "takeWhile lower (l @ nl # t) = l" "dropWhile lower (l @ nl # t) = nl # t"
    using assms by (simp_all add: takeWhile_append2 dropWhile_append2)
  with assms show ?thesis by (simp add: langTag_def)
qed

lemma langTag_other:
  assumes "\<not> list_all lower tag" "nl \<notin> set tag"
  shows "langTag (tag @ t) = (None, tag @ t)"
proof -
  from assms(1) obtain c where c: "c \<in> set tag" "\<not> lower c" by (auto simp: list_all_iff)
  then have d: "dropWhile lower (tag @ t) = dropWhile lower tag @ t"
    by (rule dropWhile_append1)
  from c have "dropWhile lower tag \<noteq> []" by auto
  then obtain x xs where x: "dropWhile lower tag = x # xs" by (cases "dropWhile lower tag") auto
  then have "x \<in> set tag" by (metis list.set_intros(1) set_dropWhileD)
  with assms(2) have "x \<noteq> nl" by auto
  with d x show ?thesis by (simp add: langTag_def)
qed

lemma fencedBlock_SomeD:
  assumes "fencedBlock t = Some ((lang, code), rest)"
  shows "\<exists>tag body. t = fence @ tag @ body @ fence @ rest \<and> code = trimNl body \<and>
           splitFence (body @ fence @ rest) = Some (body, rest) \<and>
           (case lang of None \<Rightarrow> tag = []
            | Some l \<Rightarrow> l \<noteq> [] \<and> (\<forall>c\<in>set l. lower c) \<and> tag = l @ [nl])"
proof -
  from assms have p: "prefix fence t" by (auto simp: fencedBlock_def split: if_splits)
  then obtain u where t: "t = fence @ u" by (auto simp: prefix_def)
  then have u: "drop 3 t = u" by simp
  obtain lg t' where lt: "langTag u = (lg, t')" by (cases "langTag u")
  from assms p have "(case splitFence t' of None \<Rightarrow> None
       | Some (body, rest) \<Rightarrow> Some ((lg, trimNl body), rest)) = Some ((lang, code), rest)"
    by (simp add: fencedBlock_def u lt)
  then obtain body where b: "splitFence t' = Some (body, rest)" "lg = lang" "code = trimNl body"
    by (auto split: option.splits)
  from splitFence_SomeD [OF b(1)] have t': "t' = body @ fence @ rest" .
  have sb: "splitFence (body @ fence @ rest) = Some (body, rest)"
    using b(1) by (simp only: t')
  from langTag_cases [OF lt] show ?thesis
  proof
    assume n: "lg = None \<and> t' = u"
    then have "t = fence @ [] @ body @ fence @ rest"
      by (simp add: t t' [symmetric])
    moreover have "case lang of None \<Rightarrow> ([]::string) = []
            | Some l \<Rightarrow> l \<noteq> [] \<and> (\<forall>c\<in>set l. lower c) \<and> [] = l @ [nl]"
      using n b(2) by simp
    ultimately show ?thesis using b(3) sb by blast
  next
    assume "\<exists>l. lg = Some l \<and> l \<noteq> [] \<and> (\<forall>c\<in>set l. lower c) \<and> u = l @ nl # t'"
    then obtain l where l: "lg = Some l" "l \<noteq> []" "\<forall>c\<in>set l. lower c" "u = l @ nl # t'"
      by blast
    have "t = fence @ (l @ [nl]) @ body @ fence @ rest"
      by (simp add: t l(4) t')
    moreover have "case lang of None \<Rightarrow> l @ [nl] = []
            | Some l' \<Rightarrow> l' \<noteq> [] \<and> (\<forall>c\<in>set l'. lower c) \<and> l @ [nl] = l' @ [nl]"
      using l b(2) by auto
    ultimately show ?thesis using b(3) sb by blast
  qed
qed

lemma fencedBlock_complete: "fencedBlock (fence @ b @ fence @ c) \<noteq> None"
proof -
  obtain lg t' where lt: "langTag (b @ fence @ c) = (lg, t')" by (cases "langTag (b @ fence @ c)")
  have "splitFence t' \<noteq> None"
    using langTag_cases [OF lt]
  proof
    assume "lg = None \<and> t' = b @ fence @ c"
    then show ?thesis by (simp add: splitFence_complete)
  next
    assume "\<exists>l. lg = Some l \<and> l \<noteq> [] \<and> (\<forall>c\<in>set l. lower c) \<and> b @ fence @ c = l @ nl # t'"
    then obtain l where l: "\<forall>c\<in>set l. lower c" "b @ fence @ c = l @ nl # t'" by blast
    then have "CHR 0x60 \<notin> set (l @ [nl])" by (auto simp: nl_def)
    from splitFence_append [OF this, of t']
    have "splitFence ((l @ [nl]) @ t') = map_option (\<lambda>(body, rest). ((l @ [nl]) @ body, rest)) (splitFence t')" .
    moreover have "(l @ [nl]) @ t' = b @ fence @ c"
      using l(2) by simp
    ultimately have "splitFence (b @ fence @ c) = map_option (\<lambda>(body, rest). ((l @ [nl]) @ body, rest)) (splitFence t')"
      by (simp only:)
    with splitFence_complete [of b c] show ?thesis
      by (cases "splitFence t'") simp_all
  qed
  then obtain body rest where "splitFence t' = Some (body, rest)" by auto
  with lt show ?thesis
    by (simp add: fencedBlock_def)
qed

lemma getCodeBlocks_found:
  "codeMatch t \<noteq> None \<Longrightarrow> getCodeBlocks (a @ t) \<noteq> []"
proof (induction a)
  case Nil
  then show ?case by (auto simp: getCodeBlocks.simps [of t])
next
  case (Cons x a)
  then show ?case
    by (cases "codeMatch (x # a @ t)") (auto simp: getCodeBlocks.simps [of "x # a @ t"])
qed

lemma getCodeBlocks_memD:
  "b \<in> set (getCodeBlocks s) \<Longrightarrow> \<exists>pre t rest. s = pre @ t \<and> codeMatch t = Some (b, rest)"
proof (induction s rule: getCodeBlocks.induct)
  case (1 s)
  show ?case
  proof (cases "codeMatch s")
    case None
    show ?thesis
    proof (cases s)
      case Nil
      with None "1.prems" show ?thesis by (simp add: getCodeBlocks.simps [of "[]"])
    next
      case (Cons c cs)
      with None "1.prems" have "b \<in> set (getCodeBlocks cs)"
        by (simp add: getCodeBlocks.simps [of "c # cs"])
      from "1.IH"(1) [OF None Cons this] obtain pre t rest where
        "cs = pre @ t" "codeMatch t = Some (b, rest)" by blast
      with Cons have "s = (c # pre) @ t \<and> codeMatch t = Some (b, rest)" by simp
      then show ?thesis by blast
    qed
  next
    case (Some p)
    obtain b' rest where p: "p = (b', rest)" by (cases p)
    with Some "1.prems" have "b = b' \<or> b \<in> set (getCodeBlocks rest)"
      by (simp add: getCodeBlocks.simps [of s])
    then show ?thesis
    proof
      assume "b = b'"
      with Some p have "s = [] @ s \<and> codeMatch s = Some (b, rest)" by simp
      then show ?thesis by blast
    next
      assume "b \<in> set (getCodeBlocks rest)"
      from "1.IH"(2) [OF Some p [symmetric] this] obtain pre t r where
        r: "rest = pre @ t" "codeMatch t = Some (b, r)" by blast
      obtain lang code where "b' = (lang, code)" by (cases b')
      with Some p codeMatch_SomeD [of s lang code rest] obtain tag n1 n2 where
        "s = fence @ tag @ n1 @ code @ n2 @ fence @ rest" by blast
      then have "s = (fence @ tag @ n1 @ code @ n2 @ fence) @ rest" by simp
      then obtain u where "s = u @ rest" ..
      with r have "s = (u @ pre) @ t \<and> codeMatch t = Some (b, r)" by simp
      then show ?thesis by blast
    qed
  qed
qed

lemma getCodeBlocks_nonempty_iff:
  "getCodeBlocks s \<noteq> [] \<longleftrightarrow> (\<exists>a b c. s = a @ fence @ b @ fence @ c)"
proof
  assume "getCodeBlocks s \<noteq> []"
  then obtain b where "b \<in> set (getCodeBlocks s)" by (cases "getCodeBlocks s") auto
  from getCodeBlocks_memD [OF this] obtain pre t rest where
    s: "s = pre @ t" and m: "codeMatch t = Some (b, rest)" by blast
  obtain lang code where "b = (lang, code)" by (cases b)
  with m codeMatch_SomeD [of t lang code rest] obtain tag n1 n2 where
    "t = fence @ tag @ n1 @ code @ n2 @ fence @ rest" by blast
  with s have "s = pre @ fence @ (tag @ n1 @ code @ n2) @ fence @ rest" by simp
  then show "\<exists>a b c. s = a @ fence @ b @ fence @ c" by blast
next
  assume "\<exists>a b c. s = a @ fence @ b @ fence @ c"
  then obtain a b c where s: "s = a @ fence @ b @ fence @ c" by blast
  have "codeMatch (fence @ b @ fence @ c) \<noteq> None"
    by (simp only: codeMatch_fencedBlock fencedBlock_complete not_False_eq_True)
  from getCodeBlocks_found [OF this, of a] s show "getCodeBlocks s \<noteq> []" by simp
qed

lemma getCodeBlocks_Nil: "getCodeBlocks [] = []"
  by (simp add: getCodeBlocks.simps [of "[]"] codeMatch_fencedBlock fencedBlock_def fence_def)

lemma getCodeBlocks_Some:
  "codeMatch s = Some (b, rest) \<Longrightarrow> getCodeBlocks s = b # getCodeBlocks rest"
  by (simp add: getCodeBlocks.simps [of s])

lemma getCodeBlocks_None:
  "codeMatch (c # cs) = None \<Longrightarrow> getCodeBlocks (c # cs) = getCodeBlocks cs"
  by (simp add: getCodeBlocks.simps [of "c # cs"])

lemma splitFence_nearest:
  "CHR 0x60 \<notin> set body \<Longrightarrow> splitFence (body @ fence @ post) = Some (body, post)"
  using splitFence_append [of body "fence @ post"] by (simp add: splitFence_fence)

lemma fencedBlock_tagged:
  assumes "l \<noteq> []" "list_all lower l" "splitFence (body @ fence @ post) = Some (body, post)"
  shows "fencedBlock (fence @ l @ [nl] @ body @ fence @ post) = Some ((Some l, trimNl body), post)"
proof -
  from assms(2) have "\<forall>c\<in>set l. lower c" by (simp add: list_all_iff)
  from langTag_lower [OF assms(1) this, of "body @ fence @ post"] assms(3) show ?thesis
    by (simp add: fencedBlock_def)
qed

lemma trimNl_tag:
  assumes "tag \<noteq> []" "nl \<notin> set tag"
  shows "trimNl (tag @ y) = tag @ rstripNl y"
proof -
  from assms obtain c cs where c: "tag = c # cs" "\<not> isNl c"
    by (cases tag) (auto simp: isNl_def)
  then have d: "dropWhile isNl (tag @ y) = tag @ y" by simp
  have "last tag \<in> set tag" using assms(1) by simp
  with assms(2) have l: "\<not> isNl (last tag)" unfolding isNl_def by metis
  have r: "dropWhile isNl (rev tag) = rev tag"
  proof (cases "rev tag")
    case Nil
    then show ?thesis by simp
  next
    case (Cons x xs)
    then have "tag = rev xs @ [x]" by (simp add: rev_swap)
    then have "x = last tag" by simp
    with l have nx: "\<not> isNl x" by simp
    show ?thesis unfolding Cons using nx by simp
  qed
  show ?thesis
  proof (cases "list_all isNl y")
    case True
    then have "dropWhile isNl (rev y @ rev tag) = dropWhile isNl (rev tag)"
      by (intro dropWhile_append2) (simp add: list_all_iff)
    moreover have "dropWhile isNl (rev y) = []"
      using True by (simp add: list_all_iff)
    ultimately show ?thesis
      by (simp add: trimNl_def rstripNl_def d r)
  next
    case False
    then obtain x where "x \<in> set (rev y)" "\<not> isNl x" by (auto simp: list_all_iff)
    then have "dropWhile isNl (rev y @ rev tag) = dropWhile isNl (rev y) @ rev tag"
      by (rule dropWhile_append1)
    then show ?thesis
      by (simp add: trimNl_def rstripNl_def d)
  qed
qed

lemma fencedBlock_untagged:
  assumes "\<not> list_all lower tag" "nl \<notin> set tag" "CHR 0x60 \<notin> set tag"
    "splitFence (body @ fence @ post) = Some (body, post)"
  shows "fencedBlock (fence @ tag @ [nl] @ body @ fence @ post) =
           Some ((None, trimNl (tag @ [nl] @ body)), post)"
proof -
  have "CHR 0x60 \<notin> set (tag @ [nl])"
    using assms(3) by (simp add: nl_def)
  from splitFence_append [OF this, of "body @ fence @ post"] assms(4)
  have "splitFence (tag @ [nl] @ body @ fence @ post) = Some (tag @ [nl] @ body, post)"
    by simp
  with langTag_other [OF assms(1,2), of "[nl] @ body @ fence @ post"] show ?thesis
    by (simp add: fencedBlock_def)
qed

text \<open>
  C5. A text that contains a fenced block (an opening fence, later a closing fence) has
  code. Whatever the text, the regular expression reads at each position what \<open>fencedBlock\<close>
  reads: after the opening fence an optional language tag, then the body up to the nearest
  closing fence; the code is the body with the newlines at its two ends removed. Each
  extracted pair comes from such a place of the text, and a text that is one tagged block
  gives that one pair.
\<close>

theorem fenced_code_extracted:
  "codeMatch s = fencedBlock s \<and>
   containsCode (pre @ fence @ mid @ fence @ post) \<noteq> 0 \<and>
   ((lang, code) \<in> set (getCodeBlocks s) \<longrightarrow>
      (\<exists>pre tag body post. s = pre @ fence @ tag @ body @ fence @ post \<and> code = trimNl body \<and>
          splitFence (body @ fence @ post) = Some (body, post) \<and>
          (case lang of None \<Rightarrow> tag = [] | Some l \<Rightarrow> tag = l @ [nl]))) \<and>
   (l \<noteq> [] \<and> list_all lower l \<and> CHR 0x60 \<notin> set body \<longrightarrow>
      getCodeBlocks (fence @ l @ [nl] @ body @ fence) = [(Some l, trimNl body)])"
proof -
  have 1: "codeMatch s = fencedBlock s"
    by (rule codeMatch_fencedBlock)
  have "getCodeBlocks (pre @ fence @ mid @ fence @ post) \<noteq> []"
    using getCodeBlocks_nonempty_iff [of "pre @ fence @ mid @ fence @ post"] by blast
  then have 2: "containsCode (pre @ fence @ mid @ fence @ post) \<noteq> 0"
    by (simp add: containsCode_def)
  have 3: "\<exists>pre tag body post. s = pre @ fence @ tag @ body @ fence @ post \<and> code = trimNl body \<and>
          splitFence (body @ fence @ post) = Some (body, post) \<and>
          (case lang of None \<Rightarrow> tag = [] | Some l \<Rightarrow> tag = l @ [nl])"
    if "(lang, code) \<in> set (getCodeBlocks s)"
  proof -
    from getCodeBlocks_memD [OF that] obtain p t rest where
      s: "s = p @ t" and "codeMatch t = Some ((lang, code), rest)" by blast
    then have "fencedBlock t = Some ((lang, code), rest)"
      by (simp only: codeMatch_fencedBlock)
    from fencedBlock_SomeD [OF this] obtain tag body where
      t: "t = fence @ tag @ body @ fence @ rest" "code = trimNl body"
        "splitFence (body @ fence @ rest) = Some (body, rest)"
        "case lang of None \<Rightarrow> tag = [] | Some l \<Rightarrow> l \<noteq> [] \<and> (\<forall>c\<in>set l. lower c) \<and> tag = l @ [nl]"
      by blast
    from t(4) have "case lang of None \<Rightarrow> tag = [] | Some l \<Rightarrow> tag = l @ [nl]"
      by (cases lang) simp_all
    with s t(1,2,3) have "s = p @ fence @ tag @ body @ fence @ rest \<and> code = trimNl body \<and>
          splitFence (body @ fence @ rest) = Some (body, rest) \<and>
          (case lang of None \<Rightarrow> tag = [] | Some l \<Rightarrow> tag = l @ [nl])"
      by simp
    then show ?thesis by blast
  qed
  have 4: "getCodeBlocks (fence @ l @ [nl] @ body @ fence) = [(Some l, trimNl body)]"
    if h: "l \<noteq> [] \<and> list_all lower l \<and> CHR 0x60 \<notin> set body"
  proof -
    from h have "splitFence (body @ fence @ []) = Some (body, [])"
      by (intro splitFence_nearest) simp
    with h fencedBlock_tagged [of l body "[]"]
    have "codeMatch (fence @ l @ [nl] @ body @ fence) = Some ((Some l, trimNl body), [])"
      by (simp add: codeMatch_fencedBlock)
    from getCodeBlocks_Some [OF this] show ?thesis
      by (simp add: getCodeBlocks_Nil)
  qed
  from 1 2 3 4 show ?thesis by blast
qed


theorem fenced_code_extracted_witness:
  "(Some ''js'', ''console.log(1)'') \<in> set (getCodeBlocks ''check this out ```js\<newline>console.log(1)\<newline>```'') \<and>
   (\<exists>pre tag body post.
      ''check this out ```js\<newline>console.log(1)\<newline>```'' = pre @ fence @ tag @ body @ fence @ post \<and>
      ''console.log(1)'' = trimNl body \<and>
      splitFence (body @ fence @ post) = Some (body, post) \<and> tag = ''js'' @ [nl]) \<and>
   ''js'' \<noteq> [] \<and> list_all lower ''js'' \<and> CHR 0x60 \<notin> set ''\<newline>\<newline>x = 1\<newline>'' \<and>
   getCodeBlocks (fence @ ''js'' @ [nl] @ ''\<newline>\<newline>x = 1\<newline>'' @ fence) = [(Some ''js'', ''x = 1'')] \<and>
   containsCode (''see '' @ fence @ '' js'' @ fence @ '' thanks'') \<noteq> 0"
proof -
  have m: "(Some ''js'', ''console.log(1)'') \<in> set (getCodeBlocks ''check this out ```js\<newline>console.log(1)\<newline>```'')"
    by code_simp
  have h: "''js'' \<noteq> [] \<and> list_all lower ''js'' \<and> CHR 0x60 \<notin> set ''\<newline>\<newline>x = 1\<newline>''"
    by (simp add: lower_def)
  have t: "trimNl ''\<newline>\<newline>x = 1\<newline>'' = ''x = 1''"
    by (simp add: trimNl_def isNl_def nl_def)
  from fenced_code_extracted [of "''check this out ```js\<newline>console.log(1)\<newline>```''"
      "''see ''" "'' js''" "'' thanks''" "Some ''js''" "''console.log(1)''" "''js''" "''\<newline>\<newline>x = 1\<newline>''"] m h t
  show ?thesis by simp
qed

text \<open>
  C10. A language is reported only for a run of lowercase letters that stands right after the
  opening fence and is followed by a newline, and such a run is reported. A tag with any
  other character (an uppercase letter, a digit, a space) is no language: the block is still
  code, its language is absent and the tag begins the extracted code. Two fences with nothing
  between them are a block with empty code.
\<close>

theorem language_tag_recognition:
  "((Some l, code) \<in> set (getCodeBlocks s) \<longrightarrow>
      l \<noteq> [] \<and> list_all lower l \<and> (\<exists>pre post. s = pre @ fence @ l @ [nl] @ post)) \<and>
   (l \<noteq> [] \<and> list_all lower l \<and> splitFence (body @ fence @ post) = Some (body, post) \<longrightarrow>
      codeMatch (fence @ l @ [nl] @ body @ fence @ post) = Some ((Some l, trimNl body), post)) \<and>
   (\<not> list_all lower tag \<and> nl \<notin> set tag \<and> CHR 0x60 \<notin> set tag \<and>
    splitFence (body @ fence @ post) = Some (body, post) \<longrightarrow>
      codeMatch (fence @ tag @ [nl] @ body @ fence @ post) =
        Some ((None, tag @ rstripNl ([nl] @ body)), post) \<and>
      containsCode (pre @ fence @ tag @ [nl] @ body @ fence @ post) \<noteq> 0) \<and>
   getCodeBlocks (fence @ fence) = [(None, [])] \<and>
   containsCode (fence @ fence) = 1"
proof -
  have 1: "l \<noteq> [] \<and> list_all lower l \<and> (\<exists>pre post. s = pre @ fence @ l @ [nl] @ post)"
    if "(Some l, code) \<in> set (getCodeBlocks s)"
  proof -
    from getCodeBlocks_memD [OF that] obtain p t rest where
      s: "s = p @ t" and m: "codeMatch t = Some ((Some l, code), rest)" by blast
    from codeMatch_SomeD [OF m] obtain tag n1 n2 where
      t: "t = fence @ tag @ n1 @ code @ n2 @ fence @ rest"
      and l: "l \<noteq> []" "\<forall>c\<in>set l. lower c" "tag = l @ [nl]"
      by auto
    from s t l(3) have "s = p @ fence @ l @ [nl] @ (n1 @ code @ n2 @ fence @ rest)" by simp
    with l show ?thesis by (auto simp: list_all_iff)
  qed
  have 2: "codeMatch (fence @ l @ [nl] @ body @ fence @ post) = Some ((Some l, trimNl body), post)"
    if "l \<noteq> [] \<and> list_all lower l \<and> splitFence (body @ fence @ post) = Some (body, post)"
    using that fencedBlock_tagged [of l body post] by (simp add: codeMatch_fencedBlock)
  have 3: "codeMatch (fence @ tag @ [nl] @ body @ fence @ post) =
        Some ((None, tag @ rstripNl ([nl] @ body)), post) \<and>
      containsCode (pre @ fence @ tag @ [nl] @ body @ fence @ post) \<noteq> 0"
    if h: "\<not> list_all lower tag \<and> nl \<notin> set tag \<and> CHR 0x60 \<notin> set tag \<and>
      splitFence (body @ fence @ post) = Some (body, post)"
  proof -
    from h have n: "tag \<noteq> []" by auto
    from h fencedBlock_untagged [of tag body post]
    have "fencedBlock (fence @ tag @ [nl] @ body @ fence @ post) =
           Some ((None, trimNl (tag @ [nl] @ body)), post)"
      by blast
    moreover have "trimNl (tag @ [nl] @ body) = tag @ rstripNl ([nl] @ body)"
      using n h by (intro trimNl_tag) simp_all
    ultimately have a: "codeMatch (fence @ tag @ [nl] @ body @ fence @ post) =
        Some ((None, tag @ rstripNl ([nl] @ body)), post)"
      by (simp only: codeMatch_fencedBlock)
    have "getCodeBlocks (pre @ fence @ (tag @ [nl] @ body) @ fence @ post) \<noteq> []"
      using getCodeBlocks_nonempty_iff [of "pre @ fence @ (tag @ [nl] @ body) @ fence @ post"] by blast
    then have "containsCode (pre @ fence @ tag @ [nl] @ body @ fence @ post) \<noteq> 0"
      by (simp add: containsCode_def)
    with a show ?thesis by blast
  qed
  have "codeMatch (fence @ fence) = Some ((None, []), [])"
    by (simp add: codeMatch_fencedBlock fencedBlock_def langTag_def fence_def lower_def trimNl_def)
  from getCodeBlocks_Some [OF this] have 4: "getCodeBlocks (fence @ fence) = [(None, [])]"
    by (simp add: getCodeBlocks_Nil)
  then have 5: "containsCode (fence @ fence) = 1"
    by (simp add: containsCode_def)
  from 1 2 3 4 5 show ?thesis by blast
qed

theorem language_tag_recognition_witness:
  "(Some ''py'', ''y'') \<in> set (getCodeBlocks ''a```x```b```py\<newline>\<newline>y\<newline>```c'') \<and>
   ''py'' \<noteq> [] \<and> list_all lower ''py'' \<and>
   (\<exists>pre post. ''a```x```b```py\<newline>\<newline>y\<newline>```c'' = pre @ fence @ ''py'' @ [nl] @ post) \<and>
   splitFence (''y'' @ fence @ ''c'') = Some (''y'', ''c'') \<and>
   codeMatch (fence @ ''py'' @ [nl] @ ''y'' @ fence @ ''c'') = Some ((Some ''py'', ''y''), ''c'') \<and>
   \<not> list_all lower ''Js'' \<and> nl \<notin> set ''Js'' \<and> CHR 0x60 \<notin> set ''Js'' \<and>
   codeMatch (fence @ ''Js'' @ [nl] @ ''y'' @ fence @ ''c'') = Some ((None, ''Js\<newline>y''), ''c'') \<and>
   containsCode (''see '' @ fence @ ''Js'' @ [nl] @ ''y'' @ fence @ ''c'') \<noteq> 0 \<and>
   containsCode ''``````'' = 1"
proof -
  have m: "(Some ''py'', ''y'') \<in> set (getCodeBlocks ''a```x```b```py\<newline>\<newline>y\<newline>```c'')"
    by code_simp
  have h: "''py'' \<noteq> [] \<and> list_all lower ''py'' \<and> splitFence (''y'' @ fence @ ''c'') = Some (''y'', ''c'') \<and>
      \<not> list_all lower ''Js'' \<and> nl \<notin> set ''Js'' \<and> CHR 0x60 \<notin> set ''Js''"
    by (simp add: lower_def fence_def nl_def)
  have t: "trimNl ''y'' = ''y''" "rstripNl ([nl] @ ''y'') = ''\<newline>y''" "fence @ fence = ''``````''"
    by (simp_all add: trimNl_def rstripNl_def isNl_def nl_def fence_def)
  from language_tag_recognition [of "''py''" "''y''" "''a```x```b```py\<newline>\<newline>y\<newline>```c''"
      "''y''" "''c''" "''Js''" "''see ''"] m h t
  show ?thesis by simp
qed

subsection \<open>Links\<close>





















subsection \<open>Relevance\<close>




end
